theory Spec2Isabelle
  imports Main "HOL-Library.AList" "HOL-Library.Sublist"
begin

unbundle bit_operations_syntax

section \<open>Values, objects and the heap\<close>

text \<open>
  A JavaScript value is a primitive or a reference to an object of the heap. Two
  references are the same object exactly when their addresses are equal, which is what
  \<open>===\<close> decides on objects. Numbers are modelled by integers: no claim about
  \<open>baseClone\<close> depends on floating point.
\<close>

datatype val = Undefined | Null | Bool bool | Num int | Str string | Sym nat | Ref nat

datatype tykind =
  Float32 | Float64 | Int8 | Int16 | Int32 | Uint8 | Uint8Clamped | Uint16 | Uint32

text \<open>
  What an object is, with the data only objects of that kind carry. A view
  (\<open>KBuffer\<close>, \<open>KDataView\<close>, \<open>KTypedArray\<close>) names the address of its backing
  \<open>KArrayBuffer\<close>, its byte offset and its length. A \<open>KRegExp\<close> carries source,
  flags and \<open>lastIndex\<close>. \<open>KPromise\<close> stands for the objects whose tag the table
  \<open>cloneableTags\<close> does not mention.
\<close>

datatype kind =
    KArray "val list"
  | KObject
  | KArguments
  | KFunction
  | KBuffer nat nat nat
  | KArrayBuffer "nat list"
  | KDataView nat nat nat
  | KTypedArray tykind nat nat nat
  | KBoolean bool
  | KDate int
  | KNumber int
  | KString string
  | KSymbol nat
  | KRegExp string string nat
  | KMap "(val \<times> val) list"
  | KSet "val list"
  | KError
  | KWeakMap
  | KPromise

text \<open>
  The prototype of an object: the built-in one of its kind, or another one, known by
  its identity.
\<close>

datatype protoid = DefaultProto | CustomProto val

text \<open>
  An object: its kind, its prototype, its own enumerable properties in enumeration
  order (keys are \<open>Str\<close> or \<open>Sym\<close> values) and the enumerable properties it
  inherits through its prototype chain.
\<close>

record jsobj =
  kind :: kind
  proto :: protoid
  props :: "(val \<times> val) list"
  inherited :: "(val \<times> val) list"

type_synonym heap = "jsobj list"

definition heapGet :: "heap \<Rightarrow> nat \<Rightarrow> jsobj option" where
  "heapGet h a = (if a < length h then Some (h ! a) else None)"

definition alloc :: "heap \<Rightarrow> jsobj \<Rightarrow> val \<times> heap" where
  "alloc h ob = (Ref (length h), h @ [ob])"

definition truthy :: "val \<Rightarrow> bool" where
  "truthy v = (case v of Undefined \<Rightarrow> False | Null \<Rightarrow> False | Bool b \<Rightarrow> b
     | Num n \<Rightarrow> n \<noteq> 0 | Str s \<Rightarrow> s \<noteq> [] | Sym _ \<Rightarrow> True | Ref _ \<Rightarrow> True)"

section \<open>Constants of baseClone.js\<close>

definition CLONE_DEEP_FLAG :: nat where "CLONE_DEEP_FLAG = 1"
definition CLONE_FLAT_FLAG :: nat where "CLONE_FLAT_FLAG = 2"
definition CLONE_SYMBOLS_FLAG :: nat where "CLONE_SYMBOLS_FLAG = 4"

definition argsTag :: string where "argsTag = ''[object Arguments]''"
definition arrayTag :: string where "arrayTag = ''[object Array]''"
definition boolTag :: string where "boolTag = ''[object Boolean]''"
definition dateTag :: string where "dateTag = ''[object Date]''"
definition errorTag :: string where "errorTag = ''[object Error]''"
definition mapTag :: string where "mapTag = ''[object Map]''"
definition numberTag :: string where "numberTag = ''[object Number]''"
definition objectTag :: string where "objectTag = ''[object Object]''"
definition regexpTag :: string where "regexpTag = ''[object RegExp]''"
definition setTag :: string where "setTag = ''[object Set]''"
definition stringTag :: string where "stringTag = ''[object String]''"
definition symbolTag :: string where "symbolTag = ''[object Symbol]''"
definition weakMapTag :: string where "weakMapTag = ''[object WeakMap]''"

definition arrayBufferTag :: string where "arrayBufferTag = ''[object ArrayBuffer]''"
definition dataViewTag :: string where "dataViewTag = ''[object DataView]''"
definition float32Tag :: string where "float32Tag = ''[object Float32Array]''"
definition float64Tag :: string where "float64Tag = ''[object Float64Array]''"
definition int8Tag :: string where "int8Tag = ''[object Int8Array]''"
definition int16Tag :: string where "int16Tag = ''[object Int16Array]''"
definition int32Tag :: string where "int32Tag = ''[object Int32Array]''"
definition uint8Tag :: string where "uint8Tag = ''[object Uint8Array]''"
definition uint8ClampedTag :: string where "uint8ClampedTag = ''[object Uint8ClampedArray]''"
definition uint16Tag :: string where "uint16Tag = ''[object Uint16Array]''"
definition uint32Tag :: string where "uint32Tag = ''[object Uint32Array]''"

text \<open>
  The table \<open>cloneableTags\<close>: a tag it does not mention reads as \<open>undefined\<close>,
  here \<open>None\<close>.
\<close>

definition cloneableTags :: "string \<rightharpoonup> bool" where
  "cloneableTags = map_of
     [(argsTag, True), (arrayTag, True), (arrayBufferTag, True), (dataViewTag, True),
      (boolTag, True), (dateTag, True), (float32Tag, True), (float64Tag, True),
      (int8Tag, True), (int16Tag, True), (int32Tag, True), (mapTag, True),
      (numberTag, True), (objectTag, True), (regexpTag, True), (setTag, True),
      (stringTag, True), (symbolTag, True), (uint8Tag, True), (uint8ClampedTag, True),
      (uint16Tag, True), (uint32Tag, True), (errorTag, False), (weakMapTag, False)]"

section \<open>The collaborators of baseClone\<close>

text \<open>
  Modelled from the spec: \<open>isObject.js\<close> is not among the sources. A value is an
  object when it is not a primitive.
\<close>

definition isObject :: "val \<Rightarrow> bool" where
  "isObject v = (case v of Ref _ \<Rightarrow> True | _ \<Rightarrow> False)"

text \<open>
  Modelled from the spec: \<open>getTag.js\<close> is not among the sources. The tag-detection
  function gives the runtime tag of an object; a Node buffer is a \<open>Uint8Array\<close>.
  The two tags below are the ones of callables and of promises, which the constants of
  \<open>baseClone.js\<close> do not name.
\<close>

definition funcTag :: string where "funcTag = ''[object Function]''"
definition promiseTag :: string where "promiseTag = ''[object Promise]''"

definition typedTag :: "tykind \<Rightarrow> string" where
  "typedTag t = (case t of Float32 \<Rightarrow> float32Tag | Float64 \<Rightarrow> float64Tag
     | Int8 \<Rightarrow> int8Tag | Int16 \<Rightarrow> int16Tag | Int32 \<Rightarrow> int32Tag | Uint8 \<Rightarrow> uint8Tag
     | Uint8Clamped \<Rightarrow> uint8ClampedTag | Uint16 \<Rightarrow> uint16Tag | Uint32 \<Rightarrow> uint32Tag)"

definition getTag :: "jsobj \<Rightarrow> string" where
  "getTag ob = (case kind ob of
       KArray _ \<Rightarrow> arrayTag
     | KObject \<Rightarrow> objectTag
     | KArguments \<Rightarrow> argsTag
     | KFunction \<Rightarrow> funcTag
     | KBuffer _ _ _ \<Rightarrow> uint8Tag
     | KArrayBuffer _ \<Rightarrow> arrayBufferTag
     | KDataView _ _ _ \<Rightarrow> dataViewTag
     | KTypedArray t _ _ _ \<Rightarrow> typedTag t
     | KBoolean _ \<Rightarrow> boolTag
     | KDate _ \<Rightarrow> dateTag
     | KNumber _ \<Rightarrow> numberTag
     | KString _ \<Rightarrow> stringTag
     | KSymbol _ \<Rightarrow> symbolTag
     | KRegExp _ _ _ \<Rightarrow> regexpTag
     | KMap _ \<Rightarrow> mapTag
     | KSet _ \<Rightarrow> setTag
     | KError \<Rightarrow> errorTag
     | KWeakMap \<Rightarrow> weakMapTag
     | KPromise \<Rightarrow> promiseTag)"

text \<open>
  Modelled from the spec: \<open>isBuffer.js\<close> and \<open>isTypedArray.js\<close> are not among
  the sources (the value-is-buffer and value-is-array-view predicates). \<open>isArray\<close> is
  the built-in \<open>Array.isArray\<close>, \<open>isFunc\<close> the test \<open>typeof value === "function"\<close>.
\<close>

definition isArray :: "jsobj \<Rightarrow> bool" where
  "isArray ob = (case kind ob of KArray _ \<Rightarrow> True | _ \<Rightarrow> False)"

definition isFunc :: "jsobj \<Rightarrow> bool" where
  "isFunc ob = (kind ob = KFunction)"

definition isBuffer :: "jsobj \<Rightarrow> bool" where
  "isBuffer ob = (case kind ob of KBuffer _ _ _ \<Rightarrow> True | _ \<Rightarrow> False)"

definition isTypedArray :: "jsobj \<Rightarrow> bool" where
  "isTypedArray ob = (case kind ob of KTypedArray _ _ _ _ \<Rightarrow> True
     | KBuffer _ _ _ \<Rightarrow> True | _ \<Rightarrow> False)"

definition elems :: "jsobj \<Rightarrow> val list" where
  "elems ob = (case kind ob of KArray es \<Rightarrow> es | _ \<Rightarrow> [])"

subsection \<open>Reading and writing properties\<close>

definition isStrKey :: "val \<Rightarrow> bool" where
  "isStrKey k = (case k of Str _ \<Rightarrow> True | _ \<Rightarrow> False)"

definition isSymKey :: "val \<Rightarrow> bool" where
  "isSymKey k = (case k of Sym _ \<Rightarrow> True | _ \<Rightarrow> False)"

definition hasOwnProperty :: "jsobj \<Rightarrow> val \<Rightarrow> bool" where
  "hasOwnProperty ob k = (k \<in> set (map fst (props ob)))"

text \<open>
  \<open>object[key]\<close>: an index of an array reads the element, any other key reads the own
  property, then the inherited one, and is \<open>undefined\<close> when there is none.
\<close>

definition getProp :: "jsobj \<Rightarrow> val \<Rightarrow> val" where
  "getProp ob k =
     (case (kind ob, k) of
        (KArray es, Num i) \<Rightarrow>
          (if 0 \<le> i \<and> nat i < length es then es ! nat i else Undefined)
      | _ \<Rightarrow>
          (case map_of (props ob) k of
             Some v \<Rightarrow> v
           | None \<Rightarrow> (case map_of (inherited ob) k of Some v \<Rightarrow> v | None \<Rightarrow> Undefined)))"

text \<open>
  \<open>object[key] = value\<close>: an index of an array writes the element (JavaScript
  extends an array written beyond its end), any other key updates the own property in
  place or adds it after the others.
\<close>

definition setElem :: "val list \<Rightarrow> nat \<Rightarrow> val \<Rightarrow> val list" where
  "setElem es i v =
     (if i < length es then es[i := v] else es @ replicate (i - length es) Undefined @ [v])"

definition setProp :: "jsobj \<Rightarrow> val \<Rightarrow> val \<Rightarrow> jsobj" where
  "setProp ob k v =
     (case (kind ob, k) of
        (KArray es, Num i) \<Rightarrow>
          (if 0 \<le> i then ob\<lparr>kind := KArray (setElem es (nat i) v)\<rparr>
           else ob\<lparr>props := AList.update k v (props ob)\<rparr>)
      | _ \<Rightarrow> ob\<lparr>props := AList.update k v (props ob)\<rparr>)"

text \<open>
  Modelled from the spec: \<open>assignValue.js\<close> is not among the sources (the
  assignment-into-target primitive). It writes into the object a reference names; a
  target that is no object of the heap has no result.
\<close>

definition assignValue :: "heap \<Rightarrow> val \<Rightarrow> val \<Rightarrow> val \<Rightarrow> heap option" where
  "assignValue h object k v =
     (case object of
        Ref r \<Rightarrow> (case heapGet h r of
                    None \<Rightarrow> None
                  | Some ob \<Rightarrow> Some (h[r := setProp ob k v]))
      | _ \<Rightarrow> None)"

text \<open>
  The built-in \<open>Map.prototype.set\<close> and \<open>Set.prototype.add\<close> on the object a
  reference names: an existing key keeps its place, a new one goes last.
\<close>

definition mapSet :: "heap \<Rightarrow> val \<Rightarrow> val \<Rightarrow> val \<Rightarrow> heap option" where
  "mapSet h object k v =
     (case object of
        Ref r \<Rightarrow> (case heapGet h r of
                    None \<Rightarrow> None
                  | Some ob \<Rightarrow> (case kind ob of
                                 KMap es \<Rightarrow> Some (h[r := ob\<lparr>kind := KMap (AList.update k v es)\<rparr>])
                               | _ \<Rightarrow> None))
      | _ \<Rightarrow> None)"

definition setAdd :: "heap \<Rightarrow> val \<Rightarrow> val \<Rightarrow> heap option" where
  "setAdd h object v =
     (case object of
        Ref r \<Rightarrow> (case heapGet h r of
                    None \<Rightarrow> None
                  | Some ob \<Rightarrow> (case kind ob of
                                 KSet vs \<Rightarrow>
                                   Some (h[r := ob\<lparr>kind := KSet (if v \<in> set vs then vs else vs @ [v])\<rparr>])
                               | _ \<Rightarrow> None))
      | _ \<Rightarrow> None)"

subsection \<open>Key enumeration\<close>

text \<open>
  Modelled from the spec: \<open>keys.js\<close>, \<open>keysIn.js\<close>, \<open>getAllKeys.js\<close> and
  \<open>getAllKeysIn.js\<close> are not among the sources. The four key-enumeration functions
  give the own keys only or the own and the inherited ones, the string keys only or the
  string and the symbol keys.
\<close>

definition keys :: "jsobj \<Rightarrow> val list" where
  "keys ob = filter isStrKey (map fst (props ob))"

definition getSymbols :: "jsobj \<Rightarrow> val list" where
  "getSymbols ob = filter isSymKey (map fst (props ob))"

definition keysIn :: "jsobj \<Rightarrow> val list" where
  "keysIn ob =
     keys ob @ filter (\<lambda>k. isStrKey k \<and> \<not> hasOwnProperty ob k) (map fst (inherited ob))"

definition getSymbolsIn :: "jsobj \<Rightarrow> val list" where
  "getSymbolsIn ob =
     getSymbols ob @ filter (\<lambda>k. isSymKey k \<and> \<not> hasOwnProperty ob k) (map fst (inherited ob))"

definition getAllKeys :: "jsobj \<Rightarrow> val list" where
  "getAllKeys ob = keys ob @ getSymbols ob"

definition getAllKeysIn :: "jsobj \<Rightarrow> val list" where
  "getAllKeysIn ob = keysIn ob @ getSymbolsIn ob"

subsection \<open>One-level copies and shells\<close>

text \<open>
  \<open>new Ctor(...)\<close> with the constructor of an object: an object of the same
  prototype, with the given kind and no own property.
\<close>

definition newCtor :: "jsobj \<Rightarrow> kind \<Rightarrow> jsobj" where
  "newCtor ob k = \<lparr>kind = k, proto = proto ob, props = [], inherited = inherited ob\<rparr>"

text \<open>The object literal \<open>{}\<close>.\<close>

definition emptyObject :: jsobj where
  "emptyObject = \<lparr>kind = KObject, proto = DefaultProto, props = [], inherited = []\<rparr>"

text \<open>
  Modelled from the spec: \<open>initCloneObject.js\<close> is not among the sources. The shell
  of a plain structure replicates the prototype identity of the original and has no own
  property yet.
\<close>

definition initCloneObject :: "jsobj \<Rightarrow> jsobj" where
  "initCloneObject ob = newCtor ob KObject"

text \<open>
  Modelled from the spec: \<open>copyObject.js\<close>, \<open>copySymbols.js\<close>,
  \<open>copySymbolsIn.js\<close> and \<open>copyArray.js\<close> are not among the sources. They copy
  the values of the given keys, or the elements, one level deep. \<open>objectAssign\<close> is
  the built-in \<open>Object.assign\<close>, which copies every own enumerable property.
\<close>

definition copyObject :: "jsobj \<Rightarrow> val list \<Rightarrow> jsobj \<Rightarrow> jsobj" where
  "copyObject source ks object = fold (\<lambda>k ob. setProp ob k (getProp source k)) ks object"

definition objectAssign :: "jsobj \<Rightarrow> jsobj \<Rightarrow> jsobj" where
  "objectAssign target source = copyObject source (map fst (props source)) target"

definition copySymbols :: "jsobj \<Rightarrow> jsobj \<Rightarrow> jsobj" where
  "copySymbols source object = copyObject source (getSymbols source) object"

definition copySymbolsIn :: "jsobj \<Rightarrow> jsobj \<Rightarrow> jsobj" where
  "copySymbolsIn source object = copyObject source (getSymbolsIn source) object"

definition copyArray :: "jsobj \<Rightarrow> jsobj \<Rightarrow> jsobj" where
  "copyArray source array =
     array\<lparr>kind := KArray (elems source @ drop (length (elems source)) (elems array))\<rparr>"

subsection \<open>Buffers, views and wrappers\<close>

definition bufferBytes :: "heap \<Rightarrow> nat \<Rightarrow> nat list option" where
  "bufferBytes h a =
     (case heapGet h a of
        Some ob \<Rightarrow> (case kind ob of KArrayBuffer bs \<Rightarrow> Some bs | _ \<Rightarrow> None)
      | None \<Rightarrow> None)"

text \<open>
  Modelled from the spec: \<open>cloneArrayBuffer.js\<close> is not among the sources. It
  duplicates the bytes into independent storage.
\<close>

definition cloneArrayBuffer :: "heap \<Rightarrow> jsobj \<Rightarrow> (val \<times> heap) option" where
  "cloneArrayBuffer h arrayBuffer =
     (case kind arrayBuffer of
        KArrayBuffer bs \<Rightarrow> Some (alloc h (newCtor arrayBuffer (KArrayBuffer bs)))
      | _ \<Rightarrow> None)"

text \<open>The property \<open>buffer\<close> of a view: the object at the address the view names.\<close>

definition cloneBackingBuffer :: "heap \<Rightarrow> nat \<Rightarrow> (val \<times> heap) option" where
  "cloneBackingBuffer h b =
     (case heapGet h b of None \<Rightarrow> None | Some arrayBuffer \<Rightarrow> cloneArrayBuffer h arrayBuffer)"

text \<open>
  Modelled from the spec: \<open>cloneBuffer.js\<close> is not among the sources. A deep clone
  of a binary buffer is a byte-for-byte duplicate on independent storage; a clone that
  is not deep is a view over the original backing storage.
\<close>

definition cloneBuffer :: "heap \<Rightarrow> jsobj \<Rightarrow> bool \<Rightarrow> (val \<times> heap) option" where
  "cloneBuffer h buffer isDeep =
     (case kind buffer of
        KBuffer b off len \<Rightarrow>
          (if isDeep then
             (case bufferBytes h b of
                None \<Rightarrow> None
              | Some bs \<Rightarrow>
                  (let (store, h1) = alloc h \<lparr>kind = KArrayBuffer (take len (drop off bs)),
                          proto = DefaultProto, props = [], inherited = []\<rparr>
                   in Some (alloc h1 (newCtor buffer (KBuffer (length h) 0 len)))))
           else Some (alloc h (newCtor buffer (KBuffer b off len))))
      | _ \<Rightarrow> None)"

text \<open>
  Modelled from the spec: \<open>cloneDataView.js\<close> and \<open>cloneTypedArray.js\<close> are not
  among the sources. A deep clone duplicates the full backing buffer; a clone that is
  not deep is a new view over the backing buffer of the original.
\<close>

definition cloneDataView :: "heap \<Rightarrow> jsobj \<Rightarrow> bool \<Rightarrow> (val \<times> heap) option" where
  "cloneDataView h dataView isDeep =
     (case kind dataView of
        KDataView b off len \<Rightarrow>
          (if isDeep then
             (case cloneBackingBuffer h b of
                Some (Ref b', h1) \<Rightarrow> Some (alloc h1 (newCtor dataView (KDataView b' off len)))
              | _ \<Rightarrow> None)
           else Some (alloc h (newCtor dataView (KDataView b off len))))
      | _ \<Rightarrow> None)"

definition cloneTypedArray :: "heap \<Rightarrow> jsobj \<Rightarrow> bool \<Rightarrow> (val \<times> heap) option" where
  "cloneTypedArray h typedArray isDeep =
     (case kind typedArray of
        KTypedArray t b off len \<Rightarrow>
          (if isDeep then
             (case cloneBackingBuffer h b of
                Some (Ref b', h1) \<Rightarrow> Some (alloc h1 (newCtor typedArray (KTypedArray t b' off len)))
              | _ \<Rightarrow> None)
           else Some (alloc h (newCtor typedArray (KTypedArray t b off len))))
      | _ \<Rightarrow> None)"

text \<open>
  Modelled from the spec: \<open>cloneRegExp.js\<close> is not among the sources. The pattern
  object is reconstructed from source text and flags; if deep, the current
  \<open>lastIndex\<close> is copied as well, else it is left at its default 0. The flag is the
  truth value of the second argument.
\<close>

definition cloneRegExp :: "jsobj \<Rightarrow> bool \<Rightarrow> jsobj" where
  "cloneRegExp regexp isDeep =
     (case kind regexp of
        KRegExp source flags lastIndex \<Rightarrow>
          newCtor regexp (KRegExp source flags (if isDeep then lastIndex else 0))
      | _ \<Rightarrow> newCtor regexp (KRegExp [] [] 0))"

text \<open>
  Modelled from the spec: \<open>cloneSymbol.js\<close> is not among the sources. The wrapper is
  reconstructed from its payload.
\<close>

definition cloneSymbol :: "jsobj \<Rightarrow> jsobj" where
  "cloneSymbol symbol = \<lparr>kind = kind symbol, proto = DefaultProto, props = [], inherited = []\<rparr>"

subsection \<open>The traversal registry\<close>

text \<open>
  Modelled from the spec: \<open>Stack.js\<close> is not among the sources. The registry is a
  mapping from an original value, by identity, to its clone. It is kept here as the
  sequence of its \<open>set\<close> calls, oldest first; \<open>get\<close> gives the value of the latest
  \<open>set\<close> of the key, as a mapping does, and \<open>undefined\<close> when there is none.
\<close>

type_synonym stack = "(val \<times> val) list"

definition stackGet :: "stack \<Rightarrow> val \<Rightarrow> val" where
  "stackGet s k = (case map_of (rev s) k of Some v \<Rightarrow> v | None \<Rightarrow> Undefined)"

definition stackSet :: "stack \<Rightarrow> val \<Rightarrow> val \<Rightarrow> stack" where
  "stackSet s k v = s @ [(k, v)]"

text \<open>
  Sequential iteration with a body that may have no result: \<open>arrayEach\<close> (modelled
  from the spec: \<open>arrayEach.js\<close> is not among the sources; the element-wise
  population primitive) and the built-in \<open>forEach\<close> of \<open>Map\<close> and \<open>Set\<close>.
\<close>

fun forEach :: "'a list \<Rightarrow> ('a \<Rightarrow> 's \<Rightarrow> 's option) \<Rightarrow> 's \<Rightarrow> 's option" where
  "forEach [] f s = Some s"
| "forEach (x # xs) f s = (case f x s of None \<Rightarrow> None | Some s' \<Rightarrow> forEach xs f s')"


section \<open>baseClone.js\<close>

text \<open>
  \<open>initCloneByTag\<close>, the \<open>switch\<close> on the tag. A tag of no \<open>case\<close> leaves the
  function without a \<open>return\<close>: the result is \<open>undefined\<close>. The call
  \<open>cloneRegExp(object)\<close> passes one argument, so the second parameter of
  \<open>cloneRegExp\<close> is \<open>undefined\<close>. \<open>new Ctor(+object)\<close> and
  \<open>new Ctor(object)\<close> build a wrapper of the same constructor around the same
  payload.
\<close>

definition initCloneByTag :: "heap \<Rightarrow> jsobj \<Rightarrow> string \<Rightarrow> bool \<Rightarrow> (val \<times> heap) option" where
  "initCloneByTag h object tag isDeep =
     (if tag = arrayBufferTag then cloneArrayBuffer h object
      else if tag = boolTag \<or> tag = dateTag then Some (alloc h (newCtor object (kind object)))
      else if tag = dataViewTag then cloneDataView h object isDeep
      else if tag = float32Tag \<or> tag = float64Tag \<or> tag = int8Tag \<or> tag = int16Tag
              \<or> tag = int32Tag \<or> tag = uint8Tag \<or> tag = uint8ClampedTag
              \<or> tag = uint16Tag \<or> tag = uint32Tag
        then cloneTypedArray h object isDeep
      else if tag = mapTag then Some (alloc h (newCtor object (KMap [])))
      else if tag = numberTag \<or> tag = stringTag then Some (alloc h (newCtor object (kind object)))
      else if tag = regexpTag then Some (alloc h (cloneRegExp object (truthy Undefined)))
      else if tag = setTag then Some (alloc h (newCtor object (KSet [])))
      else if tag = symbolTag then Some (alloc h (cloneSymbol object))
      else Some (Undefined, h))"

text \<open>
  \<open>initCloneArray\<close>: a new array of the same constructor and length, with the
  properties \<open>index\<close> and \<open>input\<close> of a \<open>RegExp#exec\<close> result.
\<close>

definition isString :: "val \<Rightarrow> bool" where
  "isString v = (case v of Str _ \<Rightarrow> True | _ \<Rightarrow> False)"

definition initCloneArray :: "jsobj \<Rightarrow> jsobj" where
  "initCloneArray array =
     (let len = length (elems array);
          result = newCtor array (KArray (replicate len Undefined))
      in if len \<noteq> 0 \<and> isString (getProp array (Num 0)) \<and> hasOwnProperty array (Str ''index'')
         then result\<lparr>props := [(Str ''index'', getProp array (Str ''index'')),
                                (Str ''input'', getProp array (Str ''input''))]\<rparr>
         else result)"

text \<open>
  Lines 202 to 242 of \<open>baseClone\<close>: the classification of an object and the
  allocation of its clone. \<open>Done r h\<close> is a \<open>return r\<close> of these lines;
  \<open>Populate result h\<close> leaves them with the shell \<open>result\<close>, for the registry
  and the population of line 246 onwards. \<open>value\<close> is the reference and \<open>ob\<close>
  the object it names.
\<close>

datatype phase = Done val heap | Populate val heap

definition initClone :: "val \<Rightarrow> jsobj \<Rightarrow> nat \<Rightarrow> nat \<Rightarrow> val \<Rightarrow> heap \<Rightarrow> phase option" where
  "initClone value ob isDeep isFlat object h =
     (let isArr = isArray ob; tag = getTag ob in
      if isArr then
        (let result = initCloneArray ob in
         if isDeep = 0 then (case alloc h (copyArray ob result) of (r, h') \<Rightarrow> Some (Done r h'))
         else (case alloc h result of (r, h') \<Rightarrow> Some (Populate r h')))
      else
        (let isFunc = isFunc ob in
         if isBuffer ob then
           (case cloneBuffer h ob (isDeep \<noteq> 0) of
              None \<Rightarrow> None
            | Some (r, h') \<Rightarrow> Some (Done r h'))
         else if tag = objectTag \<or> tag = argsTag \<or> (isFunc \<and> \<not> truthy object) then
           (let result = (if isFlat \<noteq> 0 \<or> isFunc then emptyObject else initCloneObject ob) in
            if isDeep = 0 then
              (case alloc h (if isFlat \<noteq> 0
                             then copySymbolsIn ob (copyObject ob (keysIn ob) result)
                             else copySymbols ob (objectAssign result ob)) of
                 (r, h') \<Rightarrow> Some (Done r h'))
            else (case alloc h result of (r, h') \<Rightarrow> Some (Populate r h')))
         else if isFunc \<or> cloneableTags tag \<noteq> Some True then
           (if truthy object then Some (Done value h)
            else (case alloc h emptyObject of (r, h') \<Rightarrow> Some (Done r h')))
         else
           (case initCloneByTag h ob tag (isDeep \<noteq> 0) of
              None \<Rightarrow> None
            | Some (r, h') \<Rightarrow> Some (Populate r h'))))"

text \<open>
  The customizer is a function of the program that calls \<open>baseClone\<close>: it sees its
  arguments and the heap, may allocate, and gives a value; an argument it is not passed
  is \<open>undefined\<close>, the registry it is not passed \<open>None\<close>.
\<close>

type_synonym customizer = "val \<Rightarrow> val \<Rightarrow> val \<Rightarrow> stack option \<Rightarrow> heap \<Rightarrow> val \<times> heap"

text \<open>
  Lines 190 to 192: the call of the customizer, with four arguments under a parent and
  with one without; \<open>result\<close> stays \<open>undefined\<close> when there is no customizer.
\<close>

definition callCustomizer ::
  "customizer option \<Rightarrow> val \<Rightarrow> val \<Rightarrow> val \<Rightarrow> stack option \<Rightarrow> heap \<Rightarrow> val \<times> heap" where
  "callCustomizer customizer value key object stack h =
     (case customizer of
        None \<Rightarrow> (Undefined, h)
      | Some c \<Rightarrow> (if truthy object then c value key object stack h
                  else c value Undefined Undefined None h))"

type_synonym cloner = "val \<Rightarrow> val \<Rightarrow> stack option \<Rightarrow> heap \<Rightarrow> (val \<times> stack option \<times> heap) option"

text \<open>
  The body of the three loops: clone the child \<open>subValue\<close> under the key \<open>key\<close>
  with the recursive call \<open>rec\<close>, then store the clone with \<open>put\<close>. The state of
  a loop is the registry and the heap.
\<close>

definition cloneInto ::
  "cloner \<Rightarrow> (heap \<Rightarrow> val \<Rightarrow> heap option) \<Rightarrow> val \<Rightarrow> val \<Rightarrow> stack option \<times> heap
     \<Rightarrow> (stack option \<times> heap) option" where
  "cloneInto rec put subValue key st =
     (case rec subValue key (fst st) (snd st) of
        None \<Rightarrow> None
      | Some (r, stack', h') \<Rightarrow>
          (case put h' r of None \<Rightarrow> None | Some h'' \<Rightarrow> Some (stack', h'')))"

definition mapEntries :: "jsobj \<Rightarrow> (val \<times> val) list" where
  "mapEntries ob = (case kind ob of KMap es \<Rightarrow> es | _ \<Rightarrow> [])"

definition setMembers :: "jsobj \<Rightarrow> val list" where
  "setMembers ob = (case kind ob of KSet vs \<Rightarrow> vs | _ \<Rightarrow> [])"

definition indices :: "jsobj \<Rightarrow> val list" where
  "indices ob = map (\<lambda>i. Num (int i)) [0 ..< length (elems ob)]"

text \<open>
  Lines 254 to 302: the population of the shell \<open>result\<close> of the object \<open>ob\<close> at
  address \<open>a\<close>, after its registration. The entries of a \<open>Map\<close> and the members of
  a \<open>Set\<close> are visited in insertion order; \<open>value[key]\<close> is read when the key is
  reached.
\<close>

definition populate ::
  "cloner \<Rightarrow> nat \<Rightarrow> jsobj \<Rightarrow> nat \<Rightarrow> nat \<Rightarrow> val \<Rightarrow> stack option \<times> heap
     \<Rightarrow> (stack option \<times> heap) option" where
  "populate rec a ob isFlat isFull result st =
     (let tag = getTag ob in
      if tag = mapTag then
        forEach (mapEntries ob)
          (\<lambda>(key, subValue). cloneInto rec (\<lambda>h r. mapSet h result key r) subValue key) st
      else if tag = setTag then
        forEach (setMembers ob)
          (\<lambda>subValue. cloneInto rec (\<lambda>h r. setAdd h result r) subValue subValue) st
      else if isTypedArray ob then Some st
      else
        (let keysFunc = (if isFull \<noteq> 0 then (if isFlat \<noteq> 0 then getAllKeysIn else getAllKeys)
                         else (if isFlat \<noteq> 0 then keysIn else keys));
             props = (if isArray ob then indices ob else keysFunc ob)
         in forEach props
              (\<lambda>key st. case heapGet (snd st) a of
                          None \<Rightarrow> None
                        | Some cur \<Rightarrow>
                            cloneInto rec (\<lambda>h r. assignValue h result key r) (getProp cur key) key st)
              st))"

text \<open>
  \<open>baseClone\<close>. The first argument bounds the depth of the recursion, which in
  JavaScript the call stack bounds: \<open>None\<close> is a call that needs more depth, or a
  heap no JavaScript program has (a reference to no object). The result is the value
  returned, the registry and the heap.
\<close>

fun baseClone ::
  "nat \<Rightarrow> val \<Rightarrow> nat \<Rightarrow> customizer option \<Rightarrow> val \<Rightarrow> val \<Rightarrow> stack option \<Rightarrow> heap
     \<Rightarrow> (val \<times> stack option \<times> heap) option" where
  "baseClone 0 value bitmask customizer key object stack h = None"
| "baseClone (Suc n) value bitmask customizer key object stack h =
     (let isDeep = bitmask AND CLONE_DEEP_FLAG;
          isFlat = bitmask AND CLONE_FLAT_FLAG;
          isFull = bitmask AND CLONE_SYMBOLS_FLAG
      in case callCustomizer customizer value key object stack h of
           (result, h0) \<Rightarrow>
        if result \<noteq> Undefined then Some (result, stack, h0)
        else if \<not> isObject value then Some (value, stack, h0)
        else
          (case value of
             Ref a \<Rightarrow>
               (case heapGet h0 a of
                  None \<Rightarrow> None
                | Some ob \<Rightarrow>
                    (case initClone value ob isDeep isFlat object h0 of
                       None \<Rightarrow> None
                     | Some (Done r h1) \<Rightarrow> Some (r, stack, h1)
                     | Some (Populate result h1) \<Rightarrow>
                         (let stack1 = (case stack of None \<Rightarrow> [] | Some s \<Rightarrow> s);
                              stacked = stackGet stack1 value
                          in if truthy stacked then Some (stacked, Some stack1, h1)
                             else
                               (case populate
                                       (\<lambda>subValue key. baseClone n subValue bitmask customizer key value)
                                       a ob isFlat isFull result
                                       (Some (stackSet stack1 value result), h1) of
                                  None \<Rightarrow> None
                                | Some (stack2, h2) \<Rightarrow> Some (result, stack2, h2)))))
           | _ \<Rightarrow> None))"

text \<open>
  Modelled from the spec: the entry points are not among the sources. \<open>deepClone\<close>
  has \<open>Deep\<close> set, \<open>shallowClone\<close> has it unset; both take own string keys only
  and no customizer.
\<close>

definition deepClone :: "nat \<Rightarrow> val \<Rightarrow> heap \<Rightarrow> (val \<times> stack option \<times> heap) option" where
  "deepClone n value h = baseClone n value CLONE_DEEP_FLAG None Undefined Undefined None h"

definition shallowClone :: "nat \<Rightarrow> val \<Rightarrow> heap \<Rightarrow> (val \<times> stack option \<times> heap) option" where
  "shallowClone n value h = baseClone n value 0 None Undefined Undefined None h"

text \<open>
  An observer for clones of pattern objects: the \<open>lastIndex\<close> of the object a
  result names.
\<close>

definition clonedLastIndex :: "(val \<times> heap) option \<Rightarrow> nat option" where
  "clonedLastIndex res =
     (case res of
        Some (Ref r, h) \<Rightarrow>
          (case heapGet h r of
             Some ob \<Rightarrow> (case kind ob of KRegExp _ _ li \<Rightarrow> Some li | _ \<Rightarrow> None)
           | None \<Rightarrow> None)
      | _ \<Rightarrow> None)"

text \<open>Objects of the examples.\<close>

definition plainObject :: "(val \<times> val) list \<Rightarrow> jsobj" where
  "plainObject ps = \<lparr>kind = KObject, proto = DefaultProto, props = ps, inherited = []\<rparr>"

definition objectOf :: "kind \<Rightarrow> (val \<times> val) list \<Rightarrow> jsobj" where
  "objectOf k ps = \<lparr>kind = k, proto = DefaultProto, props = ps, inherited = []\<rparr>"

text \<open>
  The registry of a call: the one passed in, or the new, empty one of line 246.
\<close>

definition stackOf :: "stack option \<Rightarrow> stack" where
  "stackOf st = (case st of None \<Rightarrow> [] | Some s \<Rightarrow> s)"

text \<open>
  How a call without customizer changes registry and heap: the heap only grows, the
  objects it had stay as they were; the registry gains entries at its end, each for a
  key that had no clone before, each with a reference to an object allocated since, and
  no key is entered twice.
\<close>

definition extends :: "stack \<times> heap \<Rightarrow> stack \<times> heap \<Rightarrow> bool" where
  "extends st st' =
     (prefix (snd st) (snd st') \<and>
      (\<exists>new. fst st' = fst st @ new \<and> distinct (map fst new) \<and>
         (\<forall>e \<in> set new. \<not> truthy (stackGet (fst st) (fst e)) \<and>
            (\<exists>c. snd e = Ref c \<and> length (snd st) \<le> c \<and> c < length (snd st')))))"

text \<open>
  The same for the registry alone, under any customizer: entries are added at the end,
  each for a key that had no clone before, each with a clone that is not falsy, and no
  key is entered twice.
\<close>

definition registers :: "stack \<Rightarrow> stack \<Rightarrow> bool" where
  "registers s s' =
     (\<exists>new. s' = s @ new \<and> distinct (map fst new) \<and>
        (\<forall>e \<in> set new. \<not> truthy (stackGet s (fst e)) \<and> truthy (snd e)))"

text \<open>
  Names for the parts of the last loop of \<open>populate\<close>: the keys it visits (lines 279
  to 287 and the first argument of \<open>arrayEach\<close>) and its body (lines 290 to 300).
\<close>

definition visitKeys :: "jsobj \<Rightarrow> nat \<Rightarrow> nat \<Rightarrow> val list" where
  "visitKeys ob isFlat isFull =
     (if isArray ob then indices ob
      else if isFull \<noteq> 0 then (if isFlat \<noteq> 0 then getAllKeysIn ob else getAllKeys ob)
      else (if isFlat \<noteq> 0 then keysIn ob else keys ob))"

definition visitProp ::
  "cloner \<Rightarrow> nat \<Rightarrow> val \<Rightarrow> val \<Rightarrow> stack option \<times> heap \<Rightarrow> (stack option \<times> heap) option" where
  "visitProp rec a result key st =
     (case heapGet (snd st) a of
        None \<Rightarrow> None
      | Some cur \<Rightarrow> cloneInto rec (\<lambda>h r. assignValue h result key r) (getProp cur key) key st)"

text \<open>
  Heaps a JavaScript program can have. The values a clone may visit from an object are
  those of its properties, its elements, its entries and its members; a reference among
  them names an object of the heap, and the buffer of a view is an \<open>ArrayBuffer\<close> of
  the heap.
\<close>

definition refOK :: "nat \<Rightarrow> val \<Rightarrow> bool" where
  "refOK n v = (case v of Ref b \<Rightarrow> b < n | _ \<Rightarrow> True)"

definition childVals :: "jsobj \<Rightarrow> val list" where
  "childVals ob =
     map snd (props ob) @ map snd (inherited ob) @ elems ob @ map snd (mapEntries ob)
       @ setMembers ob"

definition backingOK :: "heap \<Rightarrow> jsobj \<Rightarrow> bool" where
  "backingOK h ob =
     (case kind ob of
        KBuffer b _ _ \<Rightarrow> bufferBytes h b \<noteq> None
      | KDataView b _ _ \<Rightarrow> bufferBytes h b \<noteq> None
      | KTypedArray _ b _ _ \<Rightarrow> bufferBytes h b \<noteq> None
      | _ \<Rightarrow> True)"

definition wfHeap :: "heap \<Rightarrow> bool" where
  "wfHeap h = (\<forall>ob \<in> set h. backingOK h ob \<and> (\<forall>v \<in> set (childVals ob). refOK (length h) v))"

text \<open>The objects of the first \<open>n\<close> addresses that have no clone in the registry.\<close>

definition unregistered :: "nat \<Rightarrow> stack \<Rightarrow> nat set" where
  "unregistered n s = {b. b < n \<and> \<not> truthy (stackGet s (Ref b))}"

text \<open>
  A way to store a clone that succeeds on a shell with the property \<open>S\<close> and keeps the
  property.
\<close>

definition putOK :: "(jsobj \<Rightarrow> bool) \<Rightarrow> nat \<Rightarrow> (heap \<Rightarrow> val \<Rightarrow> heap option) \<Rightarrow> bool" where
  "putOK S c put =
     (\<forall>h v. c < length h \<and> S (h ! c) \<longrightarrow> (\<exists>ob'. put h v = Some (h[c := ob']) \<and> S ob'))"

text \<open>
  The test of line 225: the objects \<open>baseClone\<close> clones as plain structures, given
  the parent object of the call.
\<close>

definition plainStructure :: "jsobj \<Rightarrow> val \<Rightarrow> bool" where
  "plainStructure ob object =
     (getTag ob = objectTag \<or> getTag ob = argsTag \<or> (isFunc ob \<and> \<not> truthy object))"

text \<open>
  The values a deep clone keeps in the registry: references to cloneable objects that
  are neither binary buffers nor callables.
\<close>

definition tracked :: "heap \<Rightarrow> val \<Rightarrow> bool" where
  "tracked h v =
     (case v of
        Ref b \<Rightarrow>
          (case heapGet h b of
             Some bo \<Rightarrow> \<not> isBuffer bo \<and> \<not> isFunc bo \<and> cloneableTags (getTag bo) = Some True
           | None \<Rightarrow> False)
      | _ \<Rightarrow> False)"

text \<open>
  The values a clone under a parent keeps as they are (lines 236 to 237): references to
  callables and to objects whose tag the table does not mark cloneable.
\<close>

definition opaque :: "heap \<Rightarrow> val \<Rightarrow> bool" where
  "opaque h v =
     (case v of
        Ref b \<Rightarrow>
          (case heapGet h b of
             Some bo \<Rightarrow> isFunc bo \<or> cloneableTags (getTag bo) \<noteq> Some True
           | None \<Rightarrow> False)
      | _ \<Rightarrow> False)"

text \<open>References to binary buffers, which lines 221 to 223 copy at every call.\<close>

definition bufferRef :: "heap \<Rightarrow> val \<Rightarrow> bool" where
  "bufferRef h v =
     (case v of
        Ref b \<Rightarrow> (case heapGet h b of Some bo \<Rightarrow> isBuffer bo | None \<Rightarrow> False)
      | _ \<Rightarrow> False)"

text \<open>
  The objects whose clone gets its properties from the loop over the keys (lines 279 to
  301): the cloneable objects that are not callable and that no earlier line has
  returned or populated otherwise, which leaves out arrays (line 287 takes their
  elements, not their keys), binary buffers, \<open>Map\<close>, \<open>Set\<close> and typed arrays.
\<close>

definition keyLooped :: "jsobj \<Rightarrow> bool" where
  "keyLooped ob =
     (\<not> isArray ob \<and> \<not> isBuffer ob \<and> \<not> isFunc ob \<and> cloneableTags (getTag ob) = Some True
      \<and> getTag ob \<noteq> mapTag \<and> getTag ob \<noteq> setTag \<and> \<not> isTypedArray ob)"



text \<open>A way to store a clone that writes the object at one address and nothing else.\<close>

definition putsAt :: "nat \<Rightarrow> (heap \<Rightarrow> val \<Rightarrow> heap option) \<Rightarrow> bool" where
  "putsAt res put =
     (\<forall>h v h''. put h v = Some h'' \<longrightarrow> res < length h \<and> (\<exists>ob'. h'' = h[res := ob']))"

section \<open>Tags\<close>

lemmas tagDefs = argsTag_def arrayTag_def boolTag_def dateTag_def errorTag_def mapTag_def
  numberTag_def objectTag_def regexpTag_def setTag_def stringTag_def symbolTag_def
  weakMapTag_def arrayBufferTag_def dataViewTag_def float32Tag_def float64Tag_def int8Tag_def
  int16Tag_def int32Tag_def uint8Tag_def uint8ClampedTag_def uint16Tag_def uint32Tag_def
  funcTag_def promiseTag_def

lemmas flagDefs = CLONE_DEEP_FLAG_def CLONE_FLAT_FLAG_def CLONE_SYMBOLS_FLAG_def

lemma getTag_error: "getTag ob = errorTag \<Longrightarrow> kind ob = KError"
  by (cases "kind ob") (auto simp: getTag_def typedTag_def tagDefs split: tykind.splits)

lemma getTag_weakMap: "getTag ob = weakMapTag \<Longrightarrow> kind ob = KWeakMap"
  by (cases "kind ob") (auto simp: getTag_def typedTag_def tagDefs split: tykind.splits)

section \<open>Heaps, loops and the allocation of clones\<close>

lemma prefix_nth_eq: "prefix xs ys \<Longrightarrow> i < length xs \<Longrightarrow> ys ! i = xs ! i"
  by (auto simp: prefix_def nth_append)

lemma prefix_update: "prefix xs ys \<Longrightarrow> length xs \<le> r \<Longrightarrow> prefix xs (ys[r := v])"
  by (auto simp: prefix_def list_update_append)

lemma heapGet_prefix: "prefix h h' \<Longrightarrow> heapGet h a = Some ob \<Longrightarrow> heapGet h' a = Some ob"
  by (auto simp: heapGet_def prefix_def nth_append split: if_splits)

lemma heapGet_Some: "heapGet h a = Some ob \<longleftrightarrow> a < length h \<and> h ! a = ob"
  by (auto simp: heapGet_def)

lemma forEach_inv:
  assumes "forEach xs f s = Some s'" and "I s"
    and "\<And>x s s'. x \<in> set xs \<Longrightarrow> I s \<Longrightarrow> f x s = Some s' \<Longrightarrow> I s'"
  shows "I s'"
  using assms
proof (induction xs arbitrary: s)
  case Nil
  then show ?case by simp
next
  case (Cons x xs)
  from Cons.prems(1) obtain s1 where s1: "f x s = Some s1" and rest: "forEach xs f s1 = Some s'"
    by (auto split: option.splits)
  have "I s1" using Cons.prems(3) [of x s s1] Cons.prems(2) s1 by simp
  then show ?case using Cons.IH [OF rest] Cons.prems(3) by auto
qed

lemma forEach_mono:
  assumes "forEach xs f s = Some s'"
    and "\<And>x s s'. x \<in> set xs \<Longrightarrow> f x s = Some s' \<Longrightarrow> g x s = Some s'"
  shows "forEach xs g s = Some s'"
  using assms
proof (induction xs arbitrary: s)
  case Nil
  then show ?case by simp
next
  case (Cons x xs)
  from Cons.prems(1) obtain s1 where s1: "f x s = Some s1" and rest: "forEach xs f s1 = Some s'"
    by (auto split: option.splits)
  have "g x s = Some s1" using Cons.prems(2) [of x s s1] s1 by simp
  moreover have "forEach xs g s1 = Some s'" using Cons.IH [OF rest] Cons.prems(2) by auto
  ultimately show ?case by simp
qed

lemma cloneableTags_cases:
  "cloneableTags (getTag ob) = Some True \<longleftrightarrow>
     kind ob \<noteq> KFunction \<and> kind ob \<noteq> KError \<and> kind ob \<noteq> KWeakMap \<and> kind ob \<noteq> KPromise"
  by (cases "kind ob") (auto simp: getTag_def typedTag_def cloneableTags_def tagDefs split: tykind.splits)

lemma initClone_Done_prefix:
  assumes "initClone value ob isDeep isFlat object h = Some (Done r h')"
  shows "prefix h h'"
  using assms
  by (cases "kind ob")
     (auto simp: initClone_def Let_def isArray_def isBuffer_def isFunc_def getTag_def alloc_def
        cloneBuffer_def tagDefs typedTag_def
        split: if_splits option.splits tykind.splits prod.splits)

lemma initClone_Populate:
  assumes "initClone value ob isDeep isFlat object h = Some (Populate res h')"
  shows "\<exists>r. res = Ref r \<and> length h \<le> r \<and> r < length h' \<and> prefix h h'
           \<and> (getTag ob = mapTag \<longrightarrow> kind (h' ! r) = KMap [])
           \<and> (getTag ob = setTag \<longrightarrow> kind (h' ! r) = KSet [])"
  using assms
  by (cases "kind ob")
     (auto simp: initClone_def Let_def isArray_def isBuffer_def isFunc_def getTag_def alloc_def
        cloneBuffer_def tagDefs typedTag_def initCloneByTag_def cloneableTags_def
        cloneArrayBuffer_def cloneDataView_def cloneTypedArray_def cloneBackingBuffer_def
        newCtor_def nth_append
        split: if_splits option.splits tykind.splits prod.splits val.splits kind.splits)

lemma putsAt_assignValue: "putsAt r (\<lambda>h v. assignValue h (Ref r) k v)"
  by (auto simp: putsAt_def assignValue_def heapGet_def split: option.splits if_splits)

lemma putsAt_mapSet: "putsAt r (\<lambda>h v. mapSet h (Ref r) k v)"
  by (auto simp: putsAt_def mapSet_def heapGet_def split: option.splits if_splits kind.splits)

lemma putsAt_setAdd: "putsAt r (\<lambda>h v. setAdd h (Ref r) v)"
  by (auto simp: putsAt_def setAdd_def heapGet_def split: option.splits if_splits kind.splits)

lemma cloneInto_Some:
  assumes "cloneInto rec put sv key st = Some st'"
  obtains r h1 where "rec sv key (fst st) (snd st) = Some (r, fst st', h1)"
    and "put h1 r = Some (snd st')"
  using assms by (auto simp: cloneInto_def split: option.splits prod.splits)

lemma populate_inv:
  assumes "populate rec a ob isFlat isFull (Ref res) st = Some st'" and "I st"
    and "\<And>sv key put st st1. I st \<Longrightarrow> putsAt res put \<Longrightarrow>
           cloneInto rec put sv key st = Some st1 \<Longrightarrow> I st1"
  shows "I st'"
proof -
  consider (m) "getTag ob = mapTag"
    | (s) "getTag ob \<noteq> mapTag" "getTag ob = setTag"
    | (t) "getTag ob \<noteq> mapTag" "getTag ob \<noteq> setTag" "isTypedArray ob"
    | (p) "getTag ob \<noteq> mapTag" "getTag ob \<noteq> setTag" "\<not> isTypedArray ob"
    by blast
  then show ?thesis
  proof cases
    case m
    then have "forEach (mapEntries ob)
          (\<lambda>(key, subValue). cloneInto rec (\<lambda>h r. mapSet h (Ref res) key r) subValue key) st = Some st'"
      using assms(1) by (simp add: populate_def)
    then show ?thesis
      by (rule forEach_inv [where I = I]) (auto intro: assms(2) assms(3) [OF _ putsAt_mapSet])
  next
    case s
    then have "forEach (setMembers ob)
          (\<lambda>subValue. cloneInto rec (\<lambda>h r. setAdd h (Ref res) r) subValue subValue) st = Some st'"
      using assms(1) by (simp add: populate_def)
    then show ?thesis
      by (rule forEach_inv [where I = I]) (auto intro: assms(2) assms(3) [OF _ putsAt_setAdd])
  next
    case t
    then show ?thesis using assms(1,2) by (simp add: populate_def)
  next
    case p
    then obtain ks where "forEach ks
              (\<lambda>key st. case heapGet (snd st) a of
                          None \<Rightarrow> None
                        | Some cur \<Rightarrow>
                            cloneInto rec (\<lambda>h r. assignValue h (Ref res) key r) (getProp cur key) key st)
              st = Some st'"
      using assms(1) by (simp add: populate_def Let_def)
    then show ?thesis
      by (rule forEach_inv [where I = I])
         (auto intro: assms(2) assms(3) [OF _ putsAt_assignValue] split: option.splits)
  qed
qed

section \<open>The customizer\<close>

text \<open>
  C4, as amended. When the customizer returns a value other than \<open>undefined\<close>, the
  call returns that value at once: one level of depth is enough (no recursion), the
  registry is the one passed in, absent if it was absent, and the heap is the one the
  customizer left. \<open>undefined\<close> is the "no opinion" answer itself: then the node is
  processed by default, and a primitive is returned unchanged.
\<close>

theorem customizer_replacement:
  assumes "callCustomizer (Some c) value key object stack h = (r, h')"
  shows "(r \<noteq> Undefined \<longrightarrow>
            baseClone (Suc n) value bitmask (Some c) key object stack h = Some (r, stack, h'))
       \<and> (r = Undefined \<and> \<not> isObject value \<longrightarrow>
            baseClone (Suc n) value bitmask (Some c) key object stack h = Some (value, stack, h'))"
  using assms by (auto simp: Let_def)

theorem customizer_replacement_witness:
  "baseClone (Suc 0) (Ref 0) CLONE_DEEP_FLAG (Some (\<lambda>v k p s h. (Null, h)))
      Undefined Undefined None [plainObject [(Str ''a'', Ref 0)]]
     = Some (Null, None, [plainObject [(Str ''a'', Ref 0)]])
   \<and> baseClone (Suc 0) (Num 5) CLONE_DEEP_FLAG (Some (\<lambda>v k p s h. (Undefined, h)))
      Undefined Undefined None [plainObject [(Str ''a'', Ref 0)]]
     = Some (Num 5, None, [plainObject [(Str ''a'', Ref 0)]])"
  using customizer_replacement [of "\<lambda>v k p s h. (Null, h)" "Ref 0" Undefined Undefined None
      "[plainObject [(Str ''a'', Ref 0)]]" Null "[plainObject [(Str ''a'', Ref 0)]]" 0
      CLONE_DEEP_FLAG]
    customizer_replacement [of "\<lambda>v k p s h. (Undefined, h)" "Num 5" Undefined Undefined None
      "[plainObject [(Str ''a'', Ref 0)]]" Undefined "[plainObject [(Str ''a'', Ref 0)]]" 0
      CLONE_DEEP_FLAG]
  by (simp add: callCustomizer_def truthy_def isObject_def)

text \<open>
  The replacement cannot be any value: a customizer that answers \<open>undefined\<close> for an
  object gets the default clone of the object, registered in the registry, and not
  \<open>undefined\<close>.
\<close>

theorem customizer_undefined_counterexample:
  "baseClone (Suc (Suc 0)) (Ref 0) CLONE_DEEP_FLAG (Some (\<lambda>v k p s h. (Undefined, h)))
      Undefined Undefined None [plainObject []]
     = Some (Ref 1, Some [(Ref 0, Ref 1)], [plainObject [], plainObject []])"
  by (simp add: Let_def flagDefs isObject_def heapGet_def initClone_def isArray_def
      getTag_def isFunc_def isBuffer_def plainObject_def tagDefs initCloneObject_def newCtor_def
      alloc_def stackGet_def stackSet_def truthy_def populate_def isTypedArray_def keys_def
      callCustomizer_def)

section \<open>Values that are not cloneable\<close>

lemma initClone_opaque:
  assumes "kind ob = KError \<or> kind ob = KWeakMap"
  shows "initClone value ob isDeep isFlat object h =
     Some (if truthy object then Done value h else Done (Ref (length h)) (h @ [emptyObject]))"
  using assms
  by (auto simp: initClone_def isArray_def isBuffer_def isFunc_def getTag_def cloneableTags_def
      alloc_def tagDefs)

section \<open>Pattern objects\<close>

text \<open>
  C8, as amended. The clone of a pattern object is a new object with the source text
  and the flags of the original. \<open>initCloneByTag\<close> calls \<open>cloneRegExp(object)\<close>
  without the \<open>Deep\<close> flag, so the clone, its \<open>lastIndex\<close> included, is the same
  with the flag and without it.
\<close>

theorem initCloneByTag_regexp:
  assumes "kind object = KRegExp source flags lastIndex"
  shows "\<exists>li. \<forall>isDeep. initCloneByTag h object regexpTag isDeep =
              Some (Ref (length h), h @ [newCtor object (KRegExp source flags li)])"
  using assms by (auto simp: initCloneByTag_def cloneRegExp_def alloc_def tagDefs)

theorem initCloneByTag_regexp_witness:
  "\<exists>li. \<forall>isDeep. initCloneByTag [objectOf (KRegExp ''ab'' ''g'' 3) []]
            (objectOf (KRegExp ''ab'' ''g'' 3) []) regexpTag isDeep =
          Some (Ref 1, [objectOf (KRegExp ''ab'' ''g'' 3) [],
                        newCtor (objectOf (KRegExp ''ab'' ''g'' 3) []) (KRegExp ''ab'' ''g'' li)])"
proof -
  have k: "kind (objectOf (KRegExp ''ab'' ''g'' 3) []) = KRegExp ''ab'' ''g'' 3"
    by (simp add: objectOf_def)
  show ?thesis
    using initCloneByTag_regexp [OF k, of "[objectOf (KRegExp ''ab'' ''g'' 3) []]"] by simp
qed

text \<open>
  For a pattern object whose \<open>lastIndex\<close> is 3, it is not so that the deep clone has
  \<open>lastIndex\<close> 3 and the clone that is not deep has the default 0.
\<close>

theorem initCloneByTag_regexp_counterexample:
  "\<not> (clonedLastIndex (initCloneByTag [objectOf (KRegExp ''ab'' ''g'' 3) []]
          (objectOf (KRegExp ''ab'' ''g'' 3) []) regexpTag True) = Some 3
      \<and> clonedLastIndex (initCloneByTag [objectOf (KRegExp ''ab'' ''g'' 3) []]
          (objectOf (KRegExp ''ab'' ''g'' 3) []) regexpTag False) = Some 0)"
  by (simp add: clonedLastIndex_def initCloneByTag_def cloneRegExp_def alloc_def tagDefs
      objectOf_def newCtor_def heapGet_def truthy_def)

section \<open>The cases of a call without customizer\<close>

lemma callCustomizer_None [simp]: "callCustomizer None v k p st h = (Undefined, h)"
  by (simp add: callCustomizer_def)

lemma stackOf_Some [simp]: "stackOf (Some s) = s"
  by (simp add: stackOf_def)

lemma stackOf_None [simp]: "stackOf None = []"
  by (simp add: stackOf_def)

lemma baseClone_Suc:
  "baseClone (Suc n) v bm cz k p st h =
     (case callCustomizer cz v k p st h of
        (result, h0) \<Rightarrow>
     if result \<noteq> Undefined then Some (result, st, h0)
     else if \<not> isObject v then Some (v, st, h0)
     else case v of
        Ref a \<Rightarrow>
          (case heapGet h0 a of
             None \<Rightarrow> None
           | Some ob \<Rightarrow>
               (case initClone v ob (bm AND CLONE_DEEP_FLAG) (bm AND CLONE_FLAT_FLAG) p h0 of
                  None \<Rightarrow> None
                | Some (Done r h1) \<Rightarrow> Some (r, st, h1)
                | Some (Populate result h1) \<Rightarrow>
                    (if truthy (stackGet (stackOf st) v)
                     then Some (stackGet (stackOf st) v, Some (stackOf st), h1)
                     else (case populate (\<lambda>subValue key. baseClone n subValue bm cz key v) a ob
                                  (bm AND CLONE_FLAT_FLAG) (bm AND CLONE_SYMBOLS_FLAG) result
                                  (Some (stackSet (stackOf st) v result), h1) of
                             None \<Rightarrow> None
                           | Some (st2, h2) \<Rightarrow> Some (result, st2, h2)))))
      | _ \<Rightarrow> None)"
  by (auto simp: Let_def stackOf_def split: val.splits option.splits phase.splits prod.splits)

declare baseClone.simps(2) [simp del]

lemma baseClone_Suc_cases:
  assumes "baseClone (Suc n) v bm cz k p st h = Some (r, st', h')"
  obtains (repl) "callCustomizer cz v k p st h = (r, h')" "r \<noteq> Undefined" "st' = st"
  | (prim) "callCustomizer cz v k p st h = (Undefined, h')" "\<not> isObject v" "r = v" "st' = st"
  | (fin) h0 a ob where "callCustomizer cz v k p st h = (Undefined, h0)"
      "v = Ref a" "heapGet h0 a = Some ob"
      "initClone v ob (bm AND CLONE_DEEP_FLAG) (bm AND CLONE_FLAT_FLAG) p h0 = Some (Done r h')"
      "st' = st"
  | (stacked) h0 a ob res where "callCustomizer cz v k p st h = (Undefined, h0)"
      "v = Ref a" "heapGet h0 a = Some ob"
      "initClone v ob (bm AND CLONE_DEEP_FLAG) (bm AND CLONE_FLAT_FLAG) p h0 = Some (Populate res h')"
      "truthy (stackGet (stackOf st) v)" "r = stackGet (stackOf st) v" "st' = Some (stackOf st)"
  | (pop) h0 a ob h1 where "callCustomizer cz v k p st h = (Undefined, h0)"
      "v = Ref a" "heapGet h0 a = Some ob"
      "initClone v ob (bm AND CLONE_DEEP_FLAG) (bm AND CLONE_FLAT_FLAG) p h0 = Some (Populate r h1)"
      "\<not> truthy (stackGet (stackOf st) v)"
      "populate (\<lambda>subValue key. baseClone n subValue bm cz key v) a ob
         (bm AND CLONE_FLAT_FLAG) (bm AND CLONE_SYMBOLS_FLAG) r
         (Some (stackSet (stackOf st) v r), h1) = Some (st', h')"
proof -
  obtain res h0 where cc: "callCustomizer cz v k p st h = (res, h0)" by (cases "callCustomizer cz v k p st h")
  show ?thesis
  proof (cases "res \<noteq> Undefined")
    case True
    then have "r = res \<and> st' = st \<and> h' = h0"
      using assms cc unfolding baseClone_Suc by simp
    then show ?thesis using repl cc True by blast
  next
    case U: False
    show ?thesis
    proof (cases "isObject v")
      case False
      have "r = v \<and> st' = st \<and> h' = h0"
        using assms False cc U unfolding baseClone_Suc by simp
      then show ?thesis using prim False cc U by blast
    next
      case True
      then obtain a where a: "v = Ref a" by (auto simp: isObject_def split: val.splits)
      from assms a True cc U obtain ob where ob: "heapGet h0 a = Some ob"
        unfolding baseClone_Suc by (auto split: option.splits)
      from assms a ob True cc U obtain ph where
        ph: "initClone v ob (bm AND CLONE_DEEP_FLAG) (bm AND CLONE_FLAT_FLAG) p h0 = Some ph"
        unfolding baseClone_Suc by (auto split: option.splits)
      show ?thesis
      proof (cases ph)
        case (Done r1 h1)
        then have "r1 = r \<and> h1 = h' \<and> st' = st"
          using assms a ob ph True cc U unfolding baseClone_Suc by simp
        then show ?thesis using fin [of h0 a ob] a ob ph Done cc U by blast
      next
        case (Populate res1 h1)
        show ?thesis
        proof (cases "truthy (stackGet (stackOf st) v)")
          case T: True
          then have "r = stackGet (stackOf st) v \<and> st' = Some (stackOf st) \<and> h1 = h'"
            using assms a ob ph True Populate cc U unfolding baseClone_Suc by auto
          then show ?thesis using stacked [of h0 a ob res1] a ob ph Populate T cc U by blast
        next
          case F: False
          then have "res1 = r \<and> populate (\<lambda>subValue key. baseClone n subValue bm cz key v) a ob
             (bm AND CLONE_FLAT_FLAG) (bm AND CLONE_SYMBOLS_FLAG) r
             (Some (stackSet (stackOf st) v r), h1) = Some (st', h')"
            using assms a ob ph True Populate cc U unfolding baseClone_Suc
            by (auto split: option.splits)
          then show ?thesis using pop [of h0 a ob h1] a ob ph Populate F cc U by blast
        qed
      qed
    qed
  qed
qed

section \<open>How a call changes registry and heap\<close>

lemma extends_refl: "extends st st"
  by (simp add: extends_def)

lemma stackGet_append:
  "stackGet (s @ new) x = (case map_of (rev new) x of Some v \<Rightarrow> v | None \<Rightarrow> stackGet s x)"
  by (simp add: stackGet_def map_add_def split: option.splits)

lemma stackGet_append_notin:
  "x \<notin> fst ` set new \<Longrightarrow> stackGet (s @ new) x = stackGet s x"
  by (simp add: stackGet_append map_of_eq_None_iff [THEN iffD2])

lemma stackGet_append_in:
  assumes "x \<in> fst ` set new" and "\<forall>e \<in> set new. truthy (snd e)"
  shows "truthy (stackGet (s @ new) x)"
proof -
  from assms(1) have "map_of (rev new) x \<noteq> None"
    by (simp add: map_of_eq_None_iff)
  then obtain v where v: "map_of (rev new) x = Some v" by auto
  then have "(x, v) \<in> set new" using map_of_SomeD by fastforce
  then show ?thesis using v assms(2) by (auto simp: stackGet_append)
qed

lemma extends_new_truthy:
  assumes "\<forall>e \<in> set new. \<exists>c. snd e = Ref c \<and> P c"
  shows "\<forall>e \<in> set new. truthy (snd e)"
  using assms by (auto simp: truthy_def)

lemma extends_stackGet:
  assumes "extends st st'" and "truthy (stackGet (fst st) x)"
  shows "stackGet (fst st') x = stackGet (fst st) x"
proof -
  from assms(1) obtain new where new: "fst st' = fst st @ new"
    and nt: "\<forall>e \<in> set new. \<not> truthy (stackGet (fst st) (fst e))"
    by (auto simp: extends_def)
  have "x \<notin> fst ` set new" using nt assms(2) by auto
  then show ?thesis using new by (simp add: stackGet_append_notin)
qed

lemma extends_trans:
  assumes ab: "extends a b" and bc: "extends b c"
  shows "extends a c"
proof -
  from ab obtain n1 where n1: "fst b = fst a @ n1" "distinct (map fst n1)"
    "\<forall>e \<in> set n1. \<not> truthy (stackGet (fst a) (fst e)) \<and>
        (\<exists>c. snd e = Ref c \<and> length (snd a) \<le> c \<and> c < length (snd b))"
    and p1: "prefix (snd a) (snd b)"
    by (auto simp: extends_def)
  from bc obtain n2 where n2: "fst c = fst b @ n2" "distinct (map fst n2)"
    "\<forall>e \<in> set n2. \<not> truthy (stackGet (fst b) (fst e)) \<and>
        (\<exists>d. snd e = Ref d \<and> length (snd b) \<le> d \<and> d < length (snd c))"
    and p2: "prefix (snd b) (snd c)"
    by (auto simp: extends_def)
  have len: "length (snd a) \<le> length (snd b)" "length (snd b) \<le> length (snd c)"
    using p1 p2 by (auto simp: prefix_length_le)
  have t1: "\<forall>e \<in> set n1. truthy (snd e)" using n1(3) by (auto simp: truthy_def)
  have notin: "\<And>e. e \<in> set n2 \<Longrightarrow> fst e \<notin> fst ` set n1"
  proof
    fix e assume e: "e \<in> set n2" and "fst e \<in> fst ` set n1"
    then have "truthy (stackGet (fst a @ n1) (fst e))" using t1 by (rule_tac stackGet_append_in)
    then show False using n2(3) e n1(1) by auto
  qed
  have d: "distinct (map fst (n1 @ n2))"
    using n1(2) n2(2) notin by (fastforce simp: image_iff)
  have "\<forall>e \<in> set (n1 @ n2). \<not> truthy (stackGet (fst a) (fst e)) \<and>
        (\<exists>d. snd e = Ref d \<and> length (snd a) \<le> d \<and> d < length (snd c))"
  proof
    fix e assume "e \<in> set (n1 @ n2)"
    then consider "e \<in> set n1" | "e \<in> set n2" by auto
    then show "\<not> truthy (stackGet (fst a) (fst e)) \<and>
        (\<exists>d. snd e = Ref d \<and> length (snd a) \<le> d \<and> d < length (snd c))"
    proof cases
      case 1
      then show ?thesis using n1(3) len by fastforce
    next
      case 2
      then have "fst e \<notin> fst ` set n1" by (rule notin)
      then have "stackGet (fst b) (fst e) = stackGet (fst a) (fst e)"
        using n1(1) by (simp add: stackGet_append_notin)
      then show ?thesis using n2(3) 2 len by fastforce
    qed
  qed
  moreover have "fst c = fst a @ (n1 @ n2)" using n1(1) n2(1) by simp
  moreover have "prefix (snd a) (snd c)" using p1 p2 by (rule prefix_order.trans)
  ultimately show ?thesis using d unfolding extends_def by blast
qed

lemma extends_update:
  assumes "extends st (s, h)" and "length (snd st) \<le> r"
  shows "extends st (s, h[r := ob])"
  using assms by (auto simp: extends_def prefix_update)

lemma extends_prefix: "prefix h h' \<Longrightarrow> extends (s, h) (s, h')"
  by (simp add: extends_def)

lemma extends_register:
  assumes "prefix h h1" and "\<not> truthy (stackGet s v)" and "length h \<le> r" and "r < length h1"
  shows "extends (s, h) (stackSet s v (Ref r), h1)"
  using assms unfolding extends_def stackSet_def by (intro conjI exI [of _ "[(v, Ref r)]"]) auto

lemma cloneInto_extends:
  assumes step: "\<And>sv key st h r st' h'. rec sv key st h = Some (r, st', h') \<Longrightarrow>
            extends (stackOf st, h) (stackOf st', h') \<and> (st \<noteq> None \<longrightarrow> st' \<noteq> None)"
    and I: "extends st0 (stackOf (fst st), snd st) \<and> fst st \<noteq> None"
    and put: "putsAt c put" and c: "length (snd st0) \<le> c"
    and run: "cloneInto rec put sv key st = Some st1"
  shows "extends st0 (stackOf (fst st1), snd st1) \<and> fst st1 \<noteq> None"
proof -
  from run obtain r h1 where rec: "rec sv key (fst st) (snd st) = Some (r, fst st1, h1)"
    and p: "put h1 r = Some (snd st1)"
    by (rule cloneInto_Some)
  from step [OF rec] I have e: "extends (stackOf (fst st), snd st) (stackOf (fst st1), h1)"
    and ne: "fst st1 \<noteq> None" by auto
  from I e have e1: "extends st0 (stackOf (fst st1), h1)" by (blast intro: extends_trans)
  from put p obtain ob' where "snd st1 = h1[c := ob']" unfolding putsAt_def by blast
  then show ?thesis using extends_update [OF e1 c] ne by simp
qed

lemma baseClone_extends:
  "baseClone n v bm None k p st h = Some (r, st', h') \<Longrightarrow>
     extends (stackOf st, h) (stackOf st', h') \<and> (st \<noteq> None \<longrightarrow> st' \<noteq> None)"
proof (induction n arbitrary: v k p st h r st' h')
  case 0
  then show ?case by simp
next
  case (Suc n)
  from Suc.prems show ?case
  proof (cases rule: baseClone_Suc_cases)
    case repl
    then show ?thesis by (simp add: extends_refl)
  next
    case prim
    then show ?thesis by (simp add: extends_refl)
  next
    case (fin h0 a ob)
    then have "h0 = h" by simp
    then have "prefix h h'" using fin(4) initClone_Done_prefix by blast
    then show ?thesis using fin by (simp add: extends_prefix)
  next
    case (stacked h0 a ob res)
    then have "h0 = h" by simp
    then have "prefix h h'" using stacked(4) initClone_Populate by blast
    then show ?thesis using stacked by (simp add: extends_prefix)
  next
    case (pop h0 a ob h1)
    then have h0: "h0 = h" by simp
    from initClone_Populate [OF pop(4)] obtain c where c: "r = Ref c" "length h \<le> c"
      "c < length h1" "prefix h h1" unfolding h0 by blast
    let ?I = "\<lambda>st2. extends (stackOf st, h) (stackOf (fst st2), snd st2) \<and> fst st2 \<noteq> None"
    have "?I (st', h')"
    proof (rule populate_inv [where I = ?I, OF pop(6) [unfolded c(1)]])
      show "?I (Some (stackSet (stackOf st) v (Ref c)), h1)"
        using extends_register [OF c(4) pop(5) c(2) c(3)] by simp
    next
      fix sv key put st2 st3
      assume "?I st2" and "putsAt c put"
        and "cloneInto (\<lambda>subValue key. baseClone n subValue bm None key v) put sv key st2 = Some st3"
      then show "?I st3"
        using cloneInto_extends [where rec = "\<lambda>subValue key. baseClone n subValue bm None key v"
            and ?st0.0 = "(stackOf st, h)" and c = c] Suc.IH c(2)
        by (metis snd_conv)
    qed
    then show ?thesis by simp
  qed
qed

section \<open>The registry under any customizer\<close>

lemma registers_refl: "registers s s"
  by (simp add: registers_def)

lemma registers_trans:
  assumes ab: "registers a b" and bc: "registers b c"
  shows "registers a c"
proof -
  from ab obtain n1 where n1: "b = a @ n1" "distinct (map fst n1)"
    "\<forall>e \<in> set n1. \<not> truthy (stackGet a (fst e)) \<and> truthy (snd e)"
    by (auto simp: registers_def)
  from bc obtain n2 where n2: "c = b @ n2" "distinct (map fst n2)"
    "\<forall>e \<in> set n2. \<not> truthy (stackGet b (fst e)) \<and> truthy (snd e)"
    by (auto simp: registers_def)
  have t1: "\<forall>e \<in> set n1. truthy (snd e)" using n1(3) by auto
  have notin: "\<And>e. e \<in> set n2 \<Longrightarrow> fst e \<notin> fst ` set n1"
  proof
    fix e assume e: "e \<in> set n2" and "fst e \<in> fst ` set n1"
    then have "truthy (stackGet (a @ n1) (fst e))" using t1 by (rule_tac stackGet_append_in)
    then show False using n2(3) e n1(1) by auto
  qed
  have d: "distinct (map fst (n1 @ n2))"
    using n1(2) n2(2) notin by (fastforce simp: image_iff)
  have "\<forall>e \<in> set (n1 @ n2). \<not> truthy (stackGet a (fst e)) \<and> truthy (snd e)"
  proof
    fix e assume "e \<in> set (n1 @ n2)"
    then consider "e \<in> set n1" | "e \<in> set n2" by auto
    then show "\<not> truthy (stackGet a (fst e)) \<and> truthy (snd e)"
    proof cases
      case 1
      then show ?thesis using n1(3) by fastforce
    next
      case 2
      then have "fst e \<notin> fst ` set n1" by (rule notin)
      then have "stackGet b (fst e) = stackGet a (fst e)"
        using n1(1) by (simp add: stackGet_append_notin)
      then show ?thesis using n2(3) 2 by fastforce
    qed
  qed
  moreover have "c = a @ (n1 @ n2)" using n1(1) n2(1) by simp
  ultimately show ?thesis using d unfolding registers_def by blast
qed

lemma registers_stackSet:
  assumes "\<not> truthy (stackGet s v)" and "truthy r"
  shows "registers s (stackSet s v r)"
  using assms unfolding registers_def stackSet_def by (intro exI [of _ "[(v, r)]"]) auto

lemma registers_stackGet:
  assumes "registers s s'" and "truthy (stackGet s x)"
  shows "stackGet s' x = stackGet s x"
proof -
  from assms(1) obtain new where new: "s' = s @ new"
    and nt: "\<forall>e \<in> set new. \<not> truthy (stackGet s (fst e))"
    by (auto simp: registers_def)
  have "x \<notin> fst ` set new" using nt assms(2) by auto
  then show ?thesis using new by (simp add: stackGet_append_notin)
qed

lemma stackGet_stackSet: "stackGet (stackSet s v r) v = r"
  by (simp add: stackGet_def stackSet_def)

lemma cloneInto_registers:
  assumes step: "\<And>sv key st h r st' h'. rec sv key st h = Some (r, st', h') \<Longrightarrow>
            registers (stackOf st) (stackOf st') \<and> (st \<noteq> None \<longrightarrow> st' \<noteq> None)"
    and I: "registers s0 (stackOf (fst st)) \<and> fst st \<noteq> None"
    and run: "cloneInto rec put sv key st = Some st1"
  shows "registers s0 (stackOf (fst st1)) \<and> fst st1 \<noteq> None"
proof -
  from run obtain r h1 where rec: "rec sv key (fst st) (snd st) = Some (r, fst st1, h1)"
    by (rule cloneInto_Some)
  from step [OF rec] I show ?thesis by (blast intro: registers_trans)
qed

lemma populate_registers:
  assumes step: "\<And>sv key st h r st' h'. rec sv key st h = Some (r, st', h') \<Longrightarrow>
            registers (stackOf st) (stackOf st') \<and> (st \<noteq> None \<longrightarrow> st' \<noteq> None)"
    and run: "populate rec a ob isFlat isFull (Ref c) (Some s1, h1) = Some st'"
  shows "registers s1 (stackOf (fst st')) \<and> fst st' \<noteq> None"
proof (rule populate_inv [where I = "\<lambda>st. registers s1 (stackOf (fst st)) \<and> fst st \<noteq> None", OF run])
  show "registers s1 (stackOf (fst (Some s1, h1))) \<and> fst (Some s1, h1) \<noteq> None"
    by (simp add: registers_refl)
next
  fix sv key put st st1
  assume "registers s1 (stackOf (fst st)) \<and> fst st \<noteq> None"
    and "cloneInto rec put sv key st = Some st1"
  then show "registers s1 (stackOf (fst st1)) \<and> fst st1 \<noteq> None"
    using cloneInto_registers [where rec = rec] step by blast
qed

lemma baseClone_registers:
  "baseClone n v bm cz k p st h = Some (r, st', h') \<Longrightarrow>
     registers (stackOf st) (stackOf st') \<and> (st \<noteq> None \<longrightarrow> st' \<noteq> None)"
proof (induction n arbitrary: v k p st h r st' h')
  case 0
  then show ?case by simp
next
  case (Suc n)
  from Suc.prems show ?case
  proof (cases rule: baseClone_Suc_cases)
    case repl
    then show ?thesis by (simp add: registers_refl)
  next
    case prim
    then show ?thesis by (simp add: registers_refl)
  next
    case (fin h0 a ob)
    then show ?thesis by (simp add: registers_refl)
  next
    case (stacked h0 a ob res)
    then show ?thesis by (simp add: registers_refl)
  next
    case (pop h0 a ob h1)
    from initClone_Populate [OF pop(4)] obtain c where c: "r = Ref c" by blast
    have "registers (stackSet (stackOf st) v r) (stackOf (fst (st', h'))) \<and> fst (st', h') \<noteq> None"
      using populate_registers [where rec = "\<lambda>subValue key. baseClone n subValue bm cz key v",
          OF _ pop(6) [unfolded c]] Suc.IH c by blast
    moreover have "registers (stackOf st) (stackSet (stackOf st) v r)"
      using pop(5) c by (simp add: registers_stackSet truthy_def)
    ultimately show ?thesis by (auto intro: registers_trans)
  qed
qed

text \<open>The entry of a value is the first that its call adds.\<close>

lemma baseClone_registers_first:
  assumes "baseClone n v bm cz k p st h = Some (r, st', h')"
    and "callCustomizer cz v k p st h = (Undefined, h0)"
    and "v = Ref a" and "heapGet h0 a = Some ob"
    and "initClone v ob (bm AND CLONE_DEEP_FLAG) (bm AND CLONE_FLAT_FLAG) p h0 = Some (Populate res h1)"
    and "\<not> truthy (stackGet (stackOf st) v)"
  shows "r = res \<and> (\<exists>rest. stackOf st' = stackOf st @ (v, res) # rest) \<and> stackGet (stackOf st') v = res"
proof (cases n)
  case 0
  then show ?thesis using assms(1) by simp
next
  case (Suc m)
  from assms(1) [unfolded Suc] show ?thesis
  proof (cases rule: baseClone_Suc_cases)
    case repl
    then show ?thesis using assms(2) by simp
  next
    case prim
    then show ?thesis using assms(3) by (simp add: isObject_def)
  next
    case (fin h0' a' ob')
    then show ?thesis using assms(2-5) by simp
  next
    case (stacked h0' a' ob' res')
    then show ?thesis using assms(6) by simp
  next
    case (pop h0' a' ob' h1')
    then have r: "r = res" using assms(2-5) by simp
    from initClone_Populate [OF pop(4)] obtain c where c: "r = Ref c" by blast
    have reg: "registers (stackSet (stackOf st) v r) (stackOf (fst (st', h')))"
      using populate_registers [where rec = "\<lambda>subValue key. baseClone m subValue bm cz key v",
          OF _ pop(6) [unfolded c]] baseClone_registers c by blast
    then obtain new where "stackOf st' = stackSet (stackOf st) v r @ new"
      by (auto simp: registers_def)
    then have "stackOf st' = stackOf st @ (v, res) # new" using r by (simp add: stackSet_def)
    moreover have "stackGet (stackOf st') v = res"
      using registers_stackGet [OF reg, of v] c r by (simp add: stackGet_stackSet truthy_def)
    ultimately show ?thesis using r by blast
  qed
qed

section \<open>More depth changes no result\<close>

lemma cloneInto_mono:
  assumes "cloneInto rec put sv key st = Some st'"
    and "\<And>sv key s h x. rec sv key s h = Some x \<Longrightarrow> rec' sv key s h = Some x"
  shows "cloneInto rec' put sv key st = Some st'"
proof -
  from assms(1) obtain r h1 where "rec sv key (fst st) (snd st) = Some (r, fst st', h1)"
    and p: "put h1 r = Some (snd st')" by (rule cloneInto_Some)
  then have "rec' sv key (fst st) (snd st) = Some (r, fst st', h1)" using assms(2) by blast
  then show ?thesis using p by (simp add: cloneInto_def)
qed

lemma populate_props:
  assumes "getTag ob \<noteq> mapTag" "getTag ob \<noteq> setTag" "\<not> isTypedArray ob"
  shows "populate rec a ob isFlat isFull result st =
           forEach (visitKeys ob isFlat isFull) (visitProp rec a result) st"
proof -
  have "(\<lambda>key st. case heapGet (snd st) a of
                          None \<Rightarrow> None
                        | Some cur \<Rightarrow>
                            cloneInto rec (\<lambda>h r. assignValue h result key r) (getProp cur key) key st)
        = visitProp rec a result"
    by (intro ext) (simp add: visitProp_def)
  then show ?thesis using assms by (simp add: populate_def Let_def visitKeys_def)
qed

lemma populate_map:
  assumes "getTag ob = mapTag"
  shows "populate rec a ob isFlat isFull result st =
           forEach (mapEntries ob)
             (\<lambda>(key, subValue). cloneInto rec (\<lambda>h r. mapSet h result key r) subValue key) st"
  using assms by (simp add: populate_def)

lemma populate_set:
  assumes "getTag ob = setTag"
  shows "populate rec a ob isFlat isFull result st =
           forEach (setMembers ob)
             (\<lambda>subValue. cloneInto rec (\<lambda>h r. setAdd h result r) subValue subValue) st"
  using assms by (simp add: populate_def tagDefs)

lemma populate_typed:
  assumes "isTypedArray ob"
  shows "populate rec a ob isFlat isFull result st = Some st"
  using assms
  by (cases "kind ob") (auto simp: populate_def isTypedArray_def getTag_def typedTag_def tagDefs
      split: tykind.splits)

lemma visitProp_mono:
  assumes "visitProp rec a result key st = Some st'"
    and "\<And>sv key s h x. rec sv key s h = Some x \<Longrightarrow> rec' sv key s h = Some x"
  shows "visitProp rec' a result key st = Some st'"
  using assms(1) cloneInto_mono [where rec = rec and rec' = rec', OF _ assms(2)]
  by (auto simp: visitProp_def split: option.splits)

lemma populate_mono:
  assumes "populate rec a ob isFlat isFull result st = Some st'"
    and "\<And>sv key s h x. rec sv key s h = Some x \<Longrightarrow> rec' sv key s h = Some x"
  shows "populate rec' a ob isFlat isFull result st = Some st'"
proof -
  have ci: "\<And>put sv key st st'. cloneInto rec put sv key st = Some st' \<Longrightarrow>
              cloneInto rec' put sv key st = Some st'"
    using cloneInto_mono assms(2) by blast
  consider (m) "getTag ob = mapTag"
    | (s) "getTag ob \<noteq> mapTag" "getTag ob = setTag"
    | (t) "isTypedArray ob"
    | (p) "getTag ob \<noteq> mapTag" "getTag ob \<noteq> setTag" "\<not> isTypedArray ob"
    by blast
  then show ?thesis
  proof cases
    case m
    have "forEach (mapEntries ob)
          (\<lambda>(key, subValue). cloneInto rec' (\<lambda>h r. mapSet h result key r) subValue key) st = Some st'"
      by (rule forEach_mono [OF assms(1) [unfolded populate_map [OF m]]]) (auto intro: ci)
    then show ?thesis by (simp add: populate_map [OF m])
  next
    case s
    have "forEach (setMembers ob)
          (\<lambda>subValue. cloneInto rec' (\<lambda>h r. setAdd h result r) subValue subValue) st = Some st'"
      by (rule forEach_mono [OF assms(1) [unfolded populate_set [OF s(2)]]]) (auto intro: ci)
    then show ?thesis by (simp add: populate_set [OF s(2)])
  next
    case t
    then show ?thesis using assms(1) by (simp add: populate_typed)
  next
    case p
    have "forEach (visitKeys ob isFlat isFull) (visitProp rec' a result) st = Some st'"
      by (rule forEach_mono [OF assms(1) [unfolded populate_props [OF p]]])
         (auto intro: visitProp_mono assms(2))
    then show ?thesis by (simp add: populate_props [OF p])
  qed
qed

lemma baseClone_fuel_Suc:
  "baseClone n v bm cz k p st h = Some x \<Longrightarrow> baseClone (Suc n) v bm cz k p st h = Some x"
proof (induction n arbitrary: v k p st h x)
  case 0
  then show ?case by simp
next
  case (Suc n)
  obtain r st' h' where x: "x = (r, st', h')" by (cases x)
  from Suc.prems [unfolded x] show ?case
  proof (cases rule: baseClone_Suc_cases)
    case (pop h0 a ob h1)
    have "populate (\<lambda>subValue key. baseClone (Suc n) subValue bm cz key v) a ob
         (bm AND CLONE_FLAT_FLAG) (bm AND CLONE_SYMBOLS_FLAG) r
         (Some (stackSet (stackOf st) v r), h1) = Some (st', h')"
      by (rule populate_mono [OF pop(6)]) (rule Suc.IH)
    then show ?thesis using pop x by (simp add: baseClone_Suc [of "Suc n"] isObject_def)
  qed (auto simp: x baseClone_Suc [of "Suc n"] isObject_def)
qed

lemma baseClone_fuel_add:
  "baseClone n v bm cz k p st h = Some x \<Longrightarrow> baseClone (n + j) v bm cz k p st h = Some x"
  by (induction j) (auto intro: baseClone_fuel_Suc)

lemma baseClone_fuel_le:
  assumes "baseClone n v bm cz k p st h = Some x" and "n \<le> n'"
  shows "baseClone n' v bm cz k p st h = Some x"
  using baseClone_fuel_add [OF assms(1), of "n' - n"] assms(2) by simp

section \<open>The discipline of the registry\<close>

text \<open>The definitions a call on a given heap is evaluated with.\<close>

lemmas evalDefs = baseClone_Suc callCustomizer_def flagDefs isObject_def heapGet_def
  initClone_def isArray_def getTag_def isFunc_def isBuffer_def isTypedArray_def typedTag_def
  tagDefs cloneableTags_def initCloneObject_def initCloneArray_def initCloneByTag_def
  newCtor_def emptyObject_def alloc_def stackGet_def stackSet_def truthy_def populate_def
  cloneInto_def assignValue_def mapSet_def setAdd_def setProp_def setElem_def getProp_def
  keys_def keysIn_def getSymbols_def getSymbolsIn_def getAllKeys_def getAllKeysIn_def
  isStrKey_def isSymKey_def hasOwnProperty_def isString_def elems_def mapEntries_def
  setMembers_def indices_def copyObject_def objectAssign_def copySymbols_def
  copySymbolsIn_def copyArray_def bufferBytes_def cloneArrayBuffer_def cloneBackingBuffer_def
  cloneBuffer_def cloneDataView_def cloneTypedArray_def cloneRegExp_def cloneSymbol_def
  plainObject_def objectOf_def deepClone_def shallowClone_def Let_def

text \<open>
  C3. Take a call whose customizer, if any, has no opinion on the value, and whose value
  is one that lines 202 to 242 leave with a shell (the path of the registry). In a
  top-level call, which is passed no registry, no key is entered twice. If the value
  has a clone in the registry, the call returns that clone with one level of depth,
  which is no recursion, and the registry is unchanged. If it has none, the entry of
  the value and its shell is the first that the call adds: what the visits of the
  children add comes after it.
\<close>

theorem registry_discipline:
  assumes "callCustomizer cz v k p st h = (Undefined, h0)" and "v = Ref a"
    and "heapGet h0 a = Some ob"
    and "initClone v ob (bm AND CLONE_DEEP_FLAG) (bm AND CLONE_FLAT_FLAG) p h0
           = Some (Populate res h1)"
  shows "(\<forall>n w kw pw hw r st' h'. baseClone n w bm cz kw pw None hw = Some (r, st', h') \<longrightarrow>
             distinct (map fst (stackOf st')))
       \<and> (truthy (stackGet (stackOf st) v) \<longrightarrow>
             baseClone (Suc m) v bm cz k p st h
               = Some (stackGet (stackOf st) v, Some (stackOf st), h1))
       \<and> (\<not> truthy (stackGet (stackOf st) v) \<longrightarrow>
            (\<forall>n r st' h'. baseClone n v bm cz k p st h = Some (r, st', h') \<longrightarrow>
               r = res \<and> (\<exists>rest. stackOf st' = stackOf st @ (v, res) # rest)))"
proof (intro conjI allI impI)
  fix n w kw pw hw r st' h'
  assume "baseClone n w bm cz kw pw None hw = Some (r, st', h')"
  from baseClone_registers [OF this] show "distinct (map fst (stackOf st'))"
    by (auto simp: registers_def)
next
  assume "truthy (stackGet (stackOf st) v)"
  then show "baseClone (Suc m) v bm cz k p st h
               = Some (stackGet (stackOf st) v, Some (stackOf st), h1)"
    using assms by (simp add: baseClone_Suc isObject_def)
next
  fix n r st' h'
  assume "\<not> truthy (stackGet (stackOf st) v)"
    and "baseClone n v bm cz k p st h = Some (r, st', h')"
  then show "r = res" and "\<exists>rest. stackOf st' = stackOf st @ (v, res) # rest"
    using baseClone_registers_first [OF _ assms] by blast+
qed

theorem registry_discipline_witness:
  "distinct (map fst [(Ref 0, Ref 1)])
   \<and> baseClone (Suc 0) (Ref 0) CLONE_DEEP_FLAG None (Str ''self'') (Ref 0) (Some [(Ref 0, Ref 1)])
        [plainObject [(Str ''self'', Ref 0)], plainObject []]
       = Some (Ref 1, Some [(Ref 0, Ref 1)],
           [plainObject [(Str ''self'', Ref 0)], plainObject [], plainObject []])
   \<and> (\<exists>rest. [(Ref 0, Ref 1)] = [] @ (Ref 0, Ref 1) # rest)"
proof -
  let ?a = "plainObject [(Str ''self'', Ref 0)]"
  have tp: "baseClone (Suc (Suc 0)) (Ref 0) CLONE_DEEP_FLAG None Undefined Undefined None [?a]
      = Some (Ref 1, Some [(Ref 0, Ref 1)], [?a, ?a\<lparr>props := [(Str ''self'', Ref 1)]\<rparr>, plainObject []])"
    by (simp add: evalDefs)
  have c1: "callCustomizer None (Ref 0) (Str ''self'') (Ref 0) (Some [(Ref 0, Ref 1)])
      [?a, plainObject []] = (Undefined, [?a, plainObject []])" by simp
  have c3: "heapGet [?a, plainObject []] 0 = Some ?a" by (simp add: heapGet_def)
  have c4: "initClone (Ref 0) ?a (CLONE_DEEP_FLAG AND CLONE_DEEP_FLAG)
      (CLONE_DEEP_FLAG AND CLONE_FLAT_FLAG) (Ref 0) [?a, plainObject []]
      = Some (Populate (Ref 2) [?a, plainObject [], plainObject []])"
    by (simp add: evalDefs)
  have d1: "callCustomizer None (Ref 0) Undefined Undefined None [?a] = (Undefined, [?a])" by simp
  have d3: "heapGet [?a] 0 = Some ?a" by (simp add: heapGet_def)
  have d4: "initClone (Ref 0) ?a (CLONE_DEEP_FLAG AND CLONE_DEEP_FLAG)
      (CLONE_DEEP_FLAG AND CLONE_FLAT_FLAG) Undefined [?a]
      = Some (Populate (Ref 1) [?a, plainObject []])"
    by (simp add: evalDefs)
  from registry_discipline [OF c1 refl c3 c4, of 0]
  have bk: "baseClone (Suc 0) (Ref 0) CLONE_DEEP_FLAG None (Str ''self'') (Ref 0)
        (Some [(Ref 0, Ref 1)]) [?a, plainObject []]
       = Some (Ref 1, Some [(Ref 0, Ref 1)], [?a, plainObject [], plainObject []])"
    by (simp add: stackGet_def truthy_def)
  from registry_discipline [OF d1 refl d3 d4, of 0] tp
  have "distinct (map fst [(Ref 0, Ref 1)])
      \<and> (\<exists>rest. [(Ref 0, Ref 1)] = [] @ (Ref 0, Ref 1) # rest)"
    by (simp add: stackGet_def truthy_def)
  with bk show ?thesis by simp
qed

section \<open>Well-formed heaps\<close>

lemma getProp_cases:
  "getProp ob k = Undefined
   \<or> (\<exists>v. map_of (props ob) k = Some v \<and> getProp ob k = v)
   \<or> (\<exists>v. map_of (inherited ob) k = Some v \<and> getProp ob k = v)
   \<or> (\<exists>es j. kind ob = KArray es \<and> j < length es \<and> getProp ob k = es ! j)"
  by (cases "kind ob"; cases k) (auto simp: getProp_def split: option.splits)

lemma refOK_getProp:
  assumes "\<forall>v \<in> set (childVals ob). refOK n v"
  shows "refOK n (getProp ob k)"
proof -
  have u: "refOK n Undefined" by (simp add: refOK_def)
  have p: "\<And>v. map_of (props ob) k = Some v \<Longrightarrow> refOK n v"
    using assms by (force simp: childVals_def dest!: map_of_SomeD)
  have i: "\<And>v. map_of (inherited ob) k = Some v \<Longrightarrow> refOK n v"
    using assms by (force simp: childVals_def dest!: map_of_SomeD)
  have e: "\<And>es j. kind ob = KArray es \<Longrightarrow> j < length es \<Longrightarrow> refOK n (es ! j)"
    using assms by (auto simp: childVals_def elems_def)
  show ?thesis
    using u p i e getProp_cases [of ob k] by metis
qed

lemma bufferBytes_prefix: "prefix h h' \<Longrightarrow> bufferBytes h b = Some bs \<Longrightarrow> bufferBytes h' b = Some bs"
  by (auto simp: bufferBytes_def split: option.splits dest: heapGet_prefix)

lemma backingOK_prefix: "prefix h h' \<Longrightarrow> backingOK h ob \<Longrightarrow> backingOK h' ob"
  by (auto simp: backingOK_def split: kind.splits dest: bufferBytes_prefix)

lemma cloneBackingBuffer_progress:
  assumes "bufferBytes h b \<noteq> None"
  shows "\<exists>r h'. cloneBackingBuffer h b = Some (Ref r, h')"
  using assms
  by (auto simp: bufferBytes_def cloneBackingBuffer_def cloneArrayBuffer_def alloc_def
      split: option.splits kind.splits)

lemma cloneBuffer_progress:
  assumes "isBuffer ob" and "backingOK h ob"
  shows "cloneBuffer h ob d \<noteq> None"
  using assms
  by (auto simp: isBuffer_def backingOK_def cloneBuffer_def alloc_def split: kind.splits)

lemma cloneDataView_progress:
  assumes "kind ob = KDataView b off len" and "backingOK h ob"
  shows "cloneDataView h ob d \<noteq> None"
  using assms cloneBackingBuffer_progress [of h b]
  by (auto simp: backingOK_def cloneDataView_def alloc_def)

lemma cloneTypedArray_progress:
  assumes "kind ob = KTypedArray t b off len" and "backingOK h ob"
  shows "cloneTypedArray h ob d \<noteq> None"
  using assms cloneBackingBuffer_progress [of h b]
  by (auto simp: backingOK_def cloneTypedArray_def alloc_def)

lemma initCloneByTag_progress:
  assumes "backingOK h ob" and "\<not> isBuffer ob"
  shows "initCloneByTag h ob (getTag ob) d \<noteq> None"
proof (cases "kind ob")
  case (KDataView b off len)
  then show ?thesis using cloneDataView_progress [OF KDataView assms(1)]
    by (simp add: initCloneByTag_def getTag_def tagDefs)
next
  case (KTypedArray t b off len)
  then show ?thesis using cloneTypedArray_progress [OF KTypedArray assms(1)]
    by (cases t) (simp_all add: initCloneByTag_def getTag_def typedTag_def tagDefs)
next
  case (KBuffer b off len)
  then show ?thesis using assms(2) by (simp add: isBuffer_def)
qed (simp_all add: initCloneByTag_def getTag_def tagDefs cloneArrayBuffer_def)

lemma initClone_progress:
  assumes "backingOK h ob"
  shows "initClone value ob isDeep isFlat object h \<noteq> None"
proof (cases "isBuffer ob")
  case True
  then have na: "\<not> isArray ob" by (auto simp: isArray_def isBuffer_def split: kind.splits)
  have "\<And>d. \<exists>y. cloneBuffer h ob d = Some y"
    using cloneBuffer_progress [OF True assms] by auto
  from this [of True] this [of False] this [of "isDeep \<noteq> 0"] show ?thesis
    using True na by (auto simp: initClone_def)
next
  case False
  have "\<And>d. \<exists>y. initCloneByTag h ob (getTag ob) d = Some y"
    using initCloneByTag_progress [OF assms False] by auto
  from this [of True] this [of False] this [of "isDeep \<noteq> 0"] show ?thesis
    using False by (auto simp: initClone_def Let_def alloc_def)
qed

lemma forEach_fuel:
  fixes f :: "nat \<Rightarrow> 'a \<Rightarrow> 's \<Rightarrow> 's option"
  assumes mono: "\<And>n x s s'. f n x s = Some s' \<Longrightarrow> f (Suc n) x s = Some s'"
    and step: "\<And>x s. x \<in> set xs \<Longrightarrow> Inv s \<Longrightarrow> \<exists>n s'. f n x s = Some s'"
    and pres: "\<And>n x s s'. x \<in> set xs \<Longrightarrow> Inv s \<Longrightarrow> f n x s = Some s' \<Longrightarrow> Inv s'"
    and "Inv s"
  shows "\<exists>n s'. forEach xs (f n) s = Some s'"
  using step pres \<open>Inv s\<close>
proof (induction xs arbitrary: s)
  case Nil
  then show ?case by simp
next
  case (Cons x xs)
  have le: "\<And>n j y s s'. f n y s = Some s' \<Longrightarrow> f (n + j) y s = Some s'"
  proof -
    fix n j y s s' assume "f n y s = Some s'"
    then show "f (n + j) y s = Some s'" by (induction j) (auto intro: mono)
  qed
  from Cons.prems(1) [of x s] Cons.prems(3) obtain n1 s1 where n1: "f n1 x s = Some s1" by auto
  then have "Inv s1" using Cons.prems(2) [of x s n1 s1] Cons.prems(3) by simp
  then obtain n2 s' where n2: "forEach xs (f n2) s1 = Some s'"
    using Cons.IH [of s1] Cons.prems(1,2) by (metis list.set_intros(2))
  have a: "f (n1 + n2) x s = Some s1" using le [OF n1] .
  have "forEach xs (f (n1 + n2)) s1 = Some s'"
  proof (rule forEach_mono [OF n2])
    fix y t t' assume "f n2 y t = Some t'"
    from le [OF this, of n1] show "f (n1 + n2) y t = Some t'" by (simp add: add.commute)
  qed
  with a have "forEach (x # xs) (f (n1 + n2)) s = Some s'" by simp
  then show ?case by blast
qed

section \<open>Termination of the loops\<close>

lemma putOK_assignValue: "putOK (\<lambda>_. True) c (\<lambda>h v. assignValue h (Ref c) k v)"
  by (auto simp: putOK_def assignValue_def heapGet_def)

lemma putOK_mapSet: "putOK (\<lambda>ob. \<exists>es. kind ob = KMap es) c (\<lambda>h v. mapSet h (Ref c) k v)"
  by (auto simp: putOK_def mapSet_def heapGet_def)

lemma putOK_setAdd: "putOK (\<lambda>ob. \<exists>vs. kind ob = KSet vs) c (\<lambda>h v. setAdd h (Ref c) v)"
  by (auto simp: putOK_def setAdd_def heapGet_def)

lemma extends_prefixD: "extends st st' \<Longrightarrow> prefix (snd st) (snd st')"
  by (simp add: extends_def)

lemma cloneInto_terminates:
  fixes rec :: "nat \<Rightarrow> cloner"
  assumes frame: "\<And>n sv key s h r s' h'. rec n sv key s h = Some (r, s', h') \<Longrightarrow>
            extends (stackOf s, h) (stackOf s', h') \<and> (s \<noteq> None \<longrightarrow> s' \<noteq> None)"
    and child: "\<exists>n x. rec n sv key (fst st) (snd st) = Some x"
    and put: "putOK S c put"
    and inv: "c < length (snd st)" "S (snd st ! c)"
  shows "\<exists>n st'. cloneInto (rec n) put sv key st = Some st'"
proof -
  from child obtain n r s' h' where rec: "rec n sv key (fst st) (snd st) = Some (r, s', h')"
    by (metis prod_cases3)
  from frame [OF rec] have pre: "prefix (snd st) h'" by (auto dest: extends_prefixD)
  then have "c < length h'" using inv(1) prefix_length_le by fastforce
  moreover have "h' ! c = snd st ! c" using pre inv(1) by (rule prefix_nth_eq)
  ultimately obtain ob' where "put h' r = Some (h'[c := ob'])"
    using put inv(2) unfolding putOK_def by metis
  then have "cloneInto (rec n) put sv key st = Some (s', h'[c := ob'])"
    using rec by (simp add: cloneInto_def)
  then show ?thesis by blast
qed

lemma cloneInto_Inv:
  fixes rec :: "nat \<Rightarrow> cloner"
  assumes frame: "\<And>n sv key s h r s' h'. rec n sv key s h = Some (r, s', h') \<Longrightarrow>
            extends (stackOf s, h) (stackOf s', h') \<and> (s \<noteq> None \<longrightarrow> s' \<noteq> None)"
    and put: "putOK S c put"
    and run: "cloneInto (rec n) put sv key st = Some st'"
    and inv: "extends st0 (stackOf (fst st), snd st)" "fst st \<noteq> None" "c < length (snd st)"
      "S (snd st ! c)"
    and c: "length (snd st0) \<le> c"
  shows "extends st0 (stackOf (fst st'), snd st') \<and> fst st' \<noteq> None \<and> c < length (snd st')
           \<and> S (snd st' ! c)"
proof -
  from run obtain r h1 where rec: "rec n sv key (fst st) (snd st) = Some (r, fst st', h1)"
    and p: "put h1 r = Some (snd st')" by (rule cloneInto_Some)
  from frame [OF rec] inv(2) have e: "extends (stackOf (fst st), snd st) (stackOf (fst st'), h1)"
    and ne: "fst st' \<noteq> None" by auto
  from e have pre: "prefix (snd st) h1" by (auto dest: extends_prefixD)
  then have c1: "c < length h1" using inv(3) prefix_length_le by fastforce
  moreover have "h1 ! c = snd st ! c" using pre inv(3) by (rule prefix_nth_eq)
  ultimately obtain ob' where "put h1 r = Some (h1[c := ob'])" and S: "S ob'"
    using put inv(4) unfolding putOK_def by metis
  then have eq: "snd st' = h1[c := ob']" using p by simp
  from inv(1) e have "extends st0 (stackOf (fst st'), h1)" by (rule extends_trans)
  then have "extends st0 (stackOf (fst st'), snd st')" unfolding eq using c by (rule extends_update)
  then show ?thesis using ne c1 S eq by simp
qed

lemma populate_terminates:
  fixes rec :: "nat \<Rightarrow> cloner"
  assumes mono: "\<And>n sv key s h x. rec n sv key s h = Some x \<Longrightarrow> rec (Suc n) sv key s h = Some x"
    and frame: "\<And>n sv key s h r s' h'. rec n sv key s h = Some (r, s', h') \<Longrightarrow>
            extends (stackOf s, h) (stackOf s', h') \<and> (s \<noteq> None \<longrightarrow> s' \<noteq> None)"
    and child: "\<And>sv key s h. extends (s1, hE) (stackOf s, h) \<Longrightarrow> s \<noteq> None \<Longrightarrow> refOK N sv \<Longrightarrow>
            \<exists>n x. rec n sv key s h = Some x"
    and ob: "\<forall>v \<in> set (childVals ob). refOK N v" "heapGet hE a = Some ob"
    and c: "length hE \<le> c" "c < length h1" "prefix hE h1"
    and shell: "getTag ob = mapTag \<longrightarrow> kind (h1 ! c) = KMap []"
      "getTag ob = setTag \<longrightarrow> kind (h1 ! c) = KSet []"
  shows "\<exists>n st'. populate (rec n) a ob isFlat isFull (Ref c) (Some s1, h1) = Some st'"
proof -
  let ?Inv = "\<lambda>S st. extends (s1, hE) (stackOf (fst st), snd st) \<and> fst st \<noteq> None
                \<and> c < length (snd st) \<and> S (snd st ! c)"
  have init: "\<And>S. S (h1 ! c) \<Longrightarrow> ?Inv S (Some s1, h1)"
    using c by (simp add: extends_prefix)
  have ci_mono: "\<And>n put sv key st st'. cloneInto (rec n) put sv key st = Some st' \<Longrightarrow>
                  cloneInto (rec (Suc n)) put sv key st = Some st'"
    by (erule cloneInto_mono) (rule mono)
  have trm: "\<And>S put sv key st. putOK S c put \<Longrightarrow> ?Inv S st \<Longrightarrow> refOK N sv \<Longrightarrow>
                \<exists>n st'. cloneInto (rec n) put sv key st = Some st'"
  proof -
    fix S put sv key st
    assume p: "putOK S c put" and i: "?Inv S st" and r: "refOK N sv"
    have ch: "\<exists>n x. rec n sv key (fst st) (snd st) = Some x" using child i r by blast
    show "\<exists>n st'. cloneInto (rec n) put sv key st = Some st'"
    proof (rule cloneInto_terminates [where rec = rec and S = S and c = c])
      show "\<And>n sv key s h r s' h'. rec n sv key s h = Some (r, s', h') \<Longrightarrow>
            extends (stackOf s, h) (stackOf s', h') \<and> (s \<noteq> None \<longrightarrow> s' \<noteq> None)"
        by (rule frame)
    qed (use ch p i in auto)
  qed
  have pres: "\<And>S put n sv key st st'. putOK S c put \<Longrightarrow> ?Inv S st \<Longrightarrow>
                cloneInto (rec n) put sv key st = Some st' \<Longrightarrow> ?Inv S st'"
  proof -
    fix S put n sv key st st'
    assume p: "putOK S c put" and i: "?Inv S st"
      and run: "cloneInto (rec n) put sv key st = Some st'"
    have "extends (s1, hE) (stackOf (fst st'), snd st') \<and> fst st' \<noteq> None
            \<and> c < length (snd st') \<and> S (snd st' ! c)"
    proof (rule cloneInto_Inv [where rec = rec and S = S and c = c and st = st and put = put])
      show "\<And>n sv key s h r s' h'. rec n sv key s h = Some (r, s', h') \<Longrightarrow>
            extends (stackOf s, h) (stackOf s', h') \<and> (s \<noteq> None \<longrightarrow> s' \<noteq> None)"
        by (rule frame)
      show "cloneInto (rec n) put sv key st = Some st'" by (rule run)
    qed (use p i c(1) in auto)
    then show "?Inv S st'" .
  qed
  consider (m) "getTag ob = mapTag"
    | (s) "getTag ob \<noteq> mapTag" "getTag ob = setTag"
    | (t) "isTypedArray ob"
    | (p) "getTag ob \<noteq> mapTag" "getTag ob \<noteq> setTag" "\<not> isTypedArray ob"
    by blast
  then show ?thesis
  proof cases
    case m
    let ?S = "\<lambda>ob. \<exists>es. kind ob = KMap es"
    have "\<exists>n st'. forEach (mapEntries ob)
          ((\<lambda>n (key, subValue). cloneInto (rec n) (\<lambda>h r. mapSet h (Ref c) key r) subValue key) n)
          (Some s1, h1) = Some st'"
    proof (rule forEach_fuel [where Inv = "?Inv ?S"])
      show "?Inv ?S (Some s1, h1)" using init [of ?S] shell(1) m by simp
    next
      fix n x st st'
      assume "(case x of (key, subValue) \<Rightarrow>
                 cloneInto (rec n) (\<lambda>h r. mapSet h (Ref c) key r) subValue key) st = Some st'"
      then show "(case x of (key, subValue) \<Rightarrow>
                 cloneInto (rec (Suc n)) (\<lambda>h r. mapSet h (Ref c) key r) subValue key) st = Some st'"
        by (cases x) (auto intro: ci_mono)
    next
      fix x st
      assume x: "x \<in> set (mapEntries ob)" and i: "?Inv ?S st"
      obtain key sv where kv: "x = (key, sv)" by (cases x)
      have "refOK N sv" using ob(1) x kv by (force simp: childVals_def)
      from trm [OF putOK_mapSet i this]
      show "\<exists>n st'. (case x of (key, subValue) \<Rightarrow>
                 cloneInto (rec n) (\<lambda>h r. mapSet h (Ref c) key r) subValue key) st = Some st'"
        using kv by simp
    next
      fix n x st st'
      assume i: "?Inv ?S st"
        and run: "(case x of (key, subValue) \<Rightarrow>
                 cloneInto (rec n) (\<lambda>h r. mapSet h (Ref c) key r) subValue key) st = Some st'"
      obtain key sv where kv: "x = (key, sv)" by (cases x)
      show "?Inv ?S st'" using pres [OF putOK_mapSet i] run kv by simp
    qed
    then show ?thesis by (simp add: populate_map [OF m])
  next
    case s
    let ?S = "\<lambda>ob. \<exists>vs. kind ob = KSet vs"
    have "\<exists>n st'. forEach (setMembers ob)
          ((\<lambda>n subValue. cloneInto (rec n) (\<lambda>h r. setAdd h (Ref c) r) subValue subValue) n)
          (Some s1, h1) = Some st'"
    proof (rule forEach_fuel [where Inv = "?Inv ?S"])
      show "?Inv ?S (Some s1, h1)" using init [of ?S] shell(2) s by simp
    next
      fix n x st st'
      assume "cloneInto (rec n) (\<lambda>h r. setAdd h (Ref c) r) x x st = Some st'"
      then show "cloneInto (rec (Suc n)) (\<lambda>h r. setAdd h (Ref c) r) x x st = Some st'"
        by (rule ci_mono)
    next
      fix x st
      assume x: "x \<in> set (setMembers ob)" and i: "?Inv ?S st"
      have "refOK N x" using ob(1) x by (simp add: childVals_def)
      from trm [OF putOK_setAdd i this]
      show "\<exists>n st'. cloneInto (rec n) (\<lambda>h r. setAdd h (Ref c) r) x x st = Some st'" .
    next
      fix n x st st'
      assume i: "?Inv ?S st"
        and run: "cloneInto (rec n) (\<lambda>h r. setAdd h (Ref c) r) x x st = Some st'"
      show "?Inv ?S st'" using pres [OF putOK_setAdd i run] .
    qed
    then show ?thesis by (simp add: populate_set [OF s(2)])
  next
    case t
    then show ?thesis by (simp add: populate_typed)
  next
    case p
    let ?S = "\<lambda>ob::jsobj. True"
    have cur: "\<And>st. ?Inv ?S st \<Longrightarrow> heapGet (snd st) a = Some ob"
      using ob(2) by (auto dest!: extends_prefixD intro: heapGet_prefix)
    have "\<exists>n st'. forEach (visitKeys ob isFlat isFull)
          ((\<lambda>n. visitProp (rec n) a (Ref c)) n) (Some s1, h1) = Some st'"
    proof (rule forEach_fuel [where Inv = "?Inv ?S"])
      show "?Inv ?S (Some s1, h1)" using init [of ?S] by simp
    next
      fix n x st st'
      assume "visitProp (rec n) a (Ref c) x st = Some st'"
      then show "visitProp (rec (Suc n)) a (Ref c) x st = Some st'"
        by (rule visitProp_mono) (rule mono)
    next
      fix x st
      assume i: "?Inv ?S st"
      have "refOK N (getProp ob x)" using ob(1) by (rule refOK_getProp)
      from trm [OF putOK_assignValue i this]
      show "\<exists>n st'. visitProp (rec n) a (Ref c) x st = Some st'"
        using cur [OF i] by (simp add: visitProp_def)
    next
      fix n x st st'
      assume i: "?Inv ?S st" and run: "visitProp (rec n) a (Ref c) x st = Some st'"
      from run cur [OF i] have "cloneInto (rec n) (\<lambda>h r. assignValue h (Ref c) x r)
          (getProp ob x) x st = Some st'" by (simp add: visitProp_def)
      from pres [OF putOK_assignValue i this] show "?Inv ?S st'" .
    qed
    then show ?thesis by (simp add: populate_props [OF p])
  qed
qed

section \<open>Termination without customizer\<close>

lemma finite_unregistered: "finite (unregistered n s)"
  by (simp add: unregistered_def)

lemma stackGet_stackSet_other: "x \<noteq> k \<Longrightarrow> stackGet (stackSet s k v) x = stackGet s x"
  by (simp add: stackGet_def stackSet_def)

lemma unregistered_stackSet:
  assumes "a \<in> unregistered n s"
  shows "unregistered n (stackSet s (Ref a) (Ref c)) = unregistered n s - {a}"
proof -
  have t: "truthy (Ref c)" by (simp add: truthy_def)
  have "\<And>x. stackGet (stackSet s (Ref a) (Ref c)) (Ref x)
           = (if x = a then Ref c else stackGet s (Ref x))"
    by (simp add: stackGet_stackSet stackGet_stackSet_other)
  then show ?thesis using assms t by (auto simp: unregistered_def)
qed

lemma unregistered_extends:
  assumes "extends (s, h) (s', h')"
  shows "unregistered n s' \<subseteq> unregistered n s"
  using extends_stackGet [OF assms] by (fastforce simp: unregistered_def)

lemma wfHeap_nth:
  assumes "wfHeap h" and "a < length h"
  shows "backingOK h (h ! a)" and "\<forall>v \<in> set (childVals (h ! a)). refOK (length h) v"
  using assms by (auto simp: wfHeap_def)

lemma baseClone_terminates_step:
  assumes wf: "wfHeap h0" and pre: "prefix h0 h" and v: "refOK (length h0) v"
    and IH: "\<And>w kw pw sw hw. prefix h0 hw \<Longrightarrow> refOK (length h0) w \<Longrightarrow>
        card (unregistered (length h0) (stackOf sw)) < card (unregistered (length h0) (stackOf st))
        \<Longrightarrow> \<exists>n x. baseClone n w bm None kw pw sw hw = Some x"
  shows "\<exists>n x. baseClone n v bm None k p st h = Some x"
proof (cases "isObject v")
  case False
  then have "baseClone (Suc 0) v bm None k p st h = Some (v, st, h)"
    by (simp add: baseClone_Suc)
  then show ?thesis by blast
next
  case True
  then obtain a where a: "v = Ref a" by (auto simp: isObject_def split: val.splits)
  with v have aN: "a < length h0" by (simp add: refOK_def)
  let ?ob = "h0 ! a"
  have ob: "heapGet h a = Some ?ob"
    using aN by (intro heapGet_prefix [OF pre]) (simp add: heapGet_def)
  have "backingOK h ?ob" using wfHeap_nth(1) [OF wf aN] pre by (rule_tac backingOK_prefix)
  then obtain ph where
    ph: "initClone v ?ob (bm AND CLONE_DEEP_FLAG) (bm AND CLONE_FLAT_FLAG) p h = Some ph"
    using initClone_progress by fastforce
  show ?thesis
  proof (cases ph)
    case (Done r h1)
    then have "baseClone (Suc 0) v bm None k p st h = Some (r, st, h1)"
      using a ob ph by (simp add: baseClone_Suc isObject_def)
    then show ?thesis by blast
  next
    case (Populate res h1)
    from initClone_Populate [OF ph [unfolded Populate]] obtain c where c: "res = Ref c"
      "length h \<le> c" "c < length h1" "prefix h h1"
      "getTag ?ob = mapTag \<longrightarrow> kind (h1 ! c) = KMap []"
      "getTag ?ob = setTag \<longrightarrow> kind (h1 ! c) = KSet []" by blast
    show ?thesis
    proof (cases "truthy (stackGet (stackOf st) v)")
      case T: True
      then have "baseClone (Suc 0) v bm None k p st h
          = Some (stackGet (stackOf st) v, Some (stackOf st), h1)"
        using a ob ph Populate by (simp add: baseClone_Suc isObject_def)
      then show ?thesis by blast
    next
      case F: False
      let ?N = "length h0"
      let ?s1 = "stackSet (stackOf st) v res"
      let ?rec = "\<lambda>n subValue key. baseClone n subValue bm None key v"
      have mem: "a \<in> unregistered ?N (stackOf st)"
        using F a aN by (simp add: unregistered_def)
      have less: "card (unregistered ?N ?s1) < card (unregistered ?N (stackOf st))"
        unfolding a c(1) unregistered_stackSet [OF mem]
        by (rule card_Diff1_less [OF finite_unregistered mem])
      have "\<exists>n st'. populate (?rec n) a ?ob (bm AND CLONE_FLAT_FLAG) (bm AND CLONE_SYMBOLS_FLAG)
               (Ref c) (Some ?s1, h1) = Some st'"
      proof (rule populate_terminates [where rec = ?rec and N = ?N and hE = h])
        show "\<And>n sv key s h x. baseClone n sv bm None key v s h = Some x \<Longrightarrow>
                baseClone (Suc n) sv bm None key v s h = Some x"
          by (rule baseClone_fuel_Suc)
        show "\<And>n sv key s h r s' h'. baseClone n sv bm None key v s h = Some (r, s', h') \<Longrightarrow>
            extends (stackOf s, h) (stackOf s', h') \<and> (s \<noteq> None \<longrightarrow> s' \<noteq> None)"
          by (rule baseClone_extends)
        show "\<forall>v \<in> set (childVals ?ob). refOK ?N v" by (rule wfHeap_nth(2) [OF wf aN])
        show "heapGet h a = Some ?ob" by (rule ob)
        show "length h \<le> c" "c < length h1" "prefix h h1"
          "getTag ?ob = mapTag \<longrightarrow> kind (h1 ! c) = KMap []"
          "getTag ?ob = setTag \<longrightarrow> kind (h1 ! c) = KSet []" by (rule c)+
      next
        fix sv key s hw
        assume e: "extends (?s1, h) (stackOf s, hw)" and sv: "refOK ?N sv"
        have "prefix h0 hw" using pre extends_prefixD [OF e] by (auto intro: prefix_order.trans)
        moreover have "card (unregistered ?N (stackOf s)) \<le> card (unregistered ?N ?s1)"
          using unregistered_extends [OF e] by (simp add: card_mono finite_unregistered)
        ultimately show "\<exists>n x. baseClone n sv bm None key v s hw = Some x"
          using IH sv less by (meson le_less_trans)
      qed
      then obtain n st' where "populate (?rec n) a ?ob (bm AND CLONE_FLAT_FLAG)
             (bm AND CLONE_SYMBOLS_FLAG) res (Some ?s1, h1) = Some st'" using c(1) by blast
      then have "baseClone (Suc n) v bm None k p st h = Some (res, fst st', snd st')"
        using a ob ph Populate F by (simp add: baseClone_Suc isObject_def split: prod.splits)
      then show ?thesis by blast
    qed
  qed
qed

lemma baseClone_terminates:
  assumes "wfHeap h0" and "prefix h0 h" and "refOK (length h0) v"
  shows "\<exists>n x. baseClone n v bm None k p st h = Some x"
  using assms(2,3)
proof (induction "card (unregistered (length h0) (stackOf st))" arbitrary: v k p st h
    rule: less_induct)
  case less
  show ?case
    by (rule baseClone_terminates_step [OF assms(1) less.prems]) (rule less.hyps)
qed

section \<open>One-level copies\<close>

lemma setProp_plain:
  assumes "\<not> isArray ob"
  shows "setProp ob k v = ob\<lparr>props := AList.update k v (props ob)\<rparr>"
  using assms by (cases "kind ob"; cases k) (simp_all add: setProp_def isArray_def)

lemma getProp_plain:
  assumes "\<not> isArray ob"
  shows "getProp ob k = (case map_of (props ob) k of
             Some v \<Rightarrow> v
           | None \<Rightarrow> (case map_of (inherited ob) k of Some v \<Rightarrow> v | None \<Rightarrow> Undefined))"
  using assms
  by (cases "kind ob"; cases k) (auto simp: getProp_def isArray_def split: option.splits)

lemma copyObject_facts:
  assumes "\<not> isArray target"
  shows "\<not> isArray (copyObject source ks target)
       \<and> kind (copyObject source ks target) = kind target
       \<and> proto (copyObject source ks target) = proto target
       \<and> inherited (copyObject source ks target) = inherited target
       \<and> (\<forall>k. map_of (props (copyObject source ks target)) k
             = (if k \<in> set ks then Some (getProp source k) else map_of (props target) k))"
  using assms
proof (induction ks arbitrary: target)
  case Nil
  then show ?case by (simp add: copyObject_def)
next
  case (Cons x xs)
  let ?t = "setProp target x (getProp source x)"
  have t: "?t = target\<lparr>props := AList.update x (getProp source x) (props target)\<rparr>"
    using Cons.prems by (rule setProp_plain)
  then have na: "\<not> isArray ?t" using Cons.prems by (simp add: isArray_def)
  have c: "copyObject source (x # xs) target = copyObject source xs ?t"
    by (simp add: copyObject_def)
  show ?case unfolding c using Cons.IH [OF na] by (auto simp: t update_conv')
qed

lemma getProp_copyObject:
  assumes "\<not> isArray target" and "k \<in> set ks"
  shows "getProp (copyObject source ks target) k = getProp source k"
  using copyObject_facts [OF assms(1), of source ks] assms(2)
  by (simp add: getProp_plain)

text \<open>The one-level copy of lines 230 to 232.\<close>

lemma getProp_shallow_flat:
  assumes "k \<in> fst ` set (props ob)" and "isStrKey k \<or> isSymKey k"
  shows "getProp (copySymbolsIn ob (copyObject ob (keysIn ob) emptyObject)) k = getProp ob k"
proof -
  let ?t = "copyObject ob (keysIn ob) emptyObject"
  have e: "\<not> isArray emptyObject" by (simp add: isArray_def emptyObject_def)
  have na: "\<not> isArray ?t" using copyObject_facts [OF e] by blast
  show ?thesis
  proof (cases "isStrKey k")
    case True
    then have "k \<in> set (keysIn ob)" using assms(1) by (auto simp: keysIn_def keys_def)
    then have a: "map_of (props ?t) k = Some (getProp ob k)"
      using copyObject_facts [OF e, of ob "keysIn ob"] by simp
    show ?thesis
      using copyObject_facts [OF na, of ob "getSymbolsIn ob"] a
      by (simp add: copySymbolsIn_def getProp_plain)
  next
    case False
    then have "k \<in> set (getSymbolsIn ob)"
      using assms by (auto simp: getSymbolsIn_def getSymbols_def)
    then show ?thesis unfolding copySymbolsIn_def by (rule getProp_copyObject [OF na])
  qed
qed

lemma getProp_shallow_own:
  assumes "\<not> isArray target" and "inherited target = inherited ob \<or> k \<in> fst ` set (props ob)"
    and "\<not> isArray ob" and "props target = []"
  shows "getProp (copySymbols ob (objectAssign target ob)) k = getProp ob k"
proof -
  let ?t = "objectAssign target ob"
  have f1: "\<not> isArray ?t \<and> inherited ?t = inherited target
      \<and> (\<forall>k. map_of (props ?t) k
             = (if k \<in> fst ` set (props ob) then Some (getProp ob k) else None))"
    using copyObject_facts [OF assms(1), of ob "map fst (props ob)"] assms(4)
    by (simp add: objectAssign_def)
  then have na: "\<not> isArray ?t" by blast
  have f2: "inherited (copySymbols ob ?t) = inherited target
      \<and> \<not> isArray (copySymbols ob ?t)
      \<and> (\<forall>k. map_of (props (copySymbols ob ?t)) k
             = (if k \<in> fst ` set (props ob) then Some (getProp ob k) else None))"
    using copyObject_facts [OF na, of ob "getSymbols ob"] f1
    by (auto simp: copySymbols_def getSymbols_def)
  show ?thesis
  proof (cases "k \<in> fst ` set (props ob)")
    case True
    then show ?thesis using f2 by (simp add: getProp_plain)
  next
    case False
    then have "map_of (props ob) k = None" by (simp add: map_of_eq_None_iff)
    then show ?thesis using f2 False assms(2,3) by (simp add: getProp_plain)
  qed
qed

section \<open>Shallow clones of arrays and plain structures\<close>

lemma plainStructure_kind:
  assumes "plainStructure ob object"
  shows "kind ob = KObject \<or> kind ob = KArguments \<or> kind ob = KFunction"
  using assms
  by (cases "kind ob")
     (auto simp: plainStructure_def getTag_def isFunc_def typedTag_def tagDefs split: tykind.splits)

lemma plainStructure_not:
  assumes "plainStructure ob object"
  shows "\<not> isArray ob" and "\<not> isBuffer ob"
  using plainStructure_kind [OF assms] by (auto simp: isArray_def isBuffer_def)

lemma initClone_shallow_array:
  assumes "isArray ob" and "isDeep = 0"
  shows "initClone value ob isDeep isFlat object h
           = Some (Done (Ref (length h)) (h @ [copyArray ob (initCloneArray ob)]))"
  using assms by (simp add: initClone_def alloc_def)

lemma initClone_shallow_plain:
  assumes "plainStructure ob object" and "isDeep = 0"
  shows "initClone value ob isDeep isFlat object h
           = Some (Done (Ref (length h))
               (h @ [if isFlat \<noteq> 0
                     then copySymbolsIn ob (copyObject ob (keysIn ob) emptyObject)
                     else copySymbols ob (objectAssign
                            (if isFunc ob then emptyObject else initCloneObject ob) ob)]))"
  using assms plainStructure_not [OF assms(1)]
  by (auto simp: initClone_def alloc_def plainStructure_def)

lemma getProp_copyArray: "isArray ob \<Longrightarrow> getProp (copyArray ob (initCloneArray ob)) (Num i) = getProp ob (Num i)"
  by (cases "kind ob") (auto simp: isArray_def copyArray_def initCloneArray_def elems_def
      getProp_def newCtor_def Let_def)

lemma baseClone_shallow_copy:
  assumes "heapGet h a = Some ob" and "bm AND CLONE_DEEP_FLAG = 0"
    and "isArray ob \<or> plainStructure ob object"
  shows "\<exists>copy. baseClone (Suc n) (Ref a) bm None key object stack h
                  = Some (Ref (length h), stack, h @ [copy])
          \<and> (isArray ob \<longrightarrow> (\<forall>i. getProp copy (Num i) = getProp ob (Num i)))
          \<and> (\<not> isArray ob \<longrightarrow>
               (\<forall>k \<in> fst ` set (props ob).
                   isStrKey k \<or> isSymKey k \<longrightarrow> getProp copy k = getProp ob k))"
proof (cases "isArray ob")
  case True
  then have "baseClone (Suc n) (Ref a) bm None key object stack h
      = Some (Ref (length h), stack, h @ [copyArray ob (initCloneArray ob)])"
    using assms(1,2) by (simp add: baseClone_Suc isObject_def initClone_shallow_array)
  then show ?thesis using True getProp_copyArray by blast
next
  case False
  then have ps: "plainStructure ob object" using assms(3) by simp
  let ?copy = "if bm AND CLONE_FLAT_FLAG \<noteq> 0
                     then copySymbolsIn ob (copyObject ob (keysIn ob) emptyObject)
                     else copySymbols ob (objectAssign
                            (if isFunc ob then emptyObject else initCloneObject ob) ob)"
  have run: "baseClone (Suc n) (Ref a) bm None key object stack h
      = Some (Ref (length h), stack, h @ [?copy])"
    using assms(1,2) initClone_shallow_plain [OF ps]
    by (simp add: baseClone_Suc isObject_def)
  have "\<forall>k \<in> fst ` set (props ob). isStrKey k \<or> isSymKey k \<longrightarrow> getProp ?copy k = getProp ob k"
  proof (intro ballI impI)
    fix k assume k: "k \<in> fst ` set (props ob)" and sk: "isStrKey k \<or> isSymKey k"
    show "getProp ?copy k = getProp ob k"
    proof (cases "bm AND CLONE_FLAT_FLAG \<noteq> 0")
      case True
      then show ?thesis using getProp_shallow_flat [OF k sk] by simp
    next
      case F: False
      let ?t = "if isFunc ob then emptyObject else initCloneObject ob"
      have "\<not> isArray ?t" "props ?t = []"
        by (auto simp: isArray_def emptyObject_def initCloneObject_def newCtor_def)
      then have "getProp (copySymbols ob (objectAssign ?t ob)) k = getProp ob k"
        using k False by (intro getProp_shallow_own) auto
      then show ?thesis using F by simp
    qed
  qed
  then show ?thesis using run False by blast
qed

text \<open>
  C7, as amended. Without the \<open>Deep\<close> flag, the clone of an array or of a plain
  structure (an object the test of line 225 accepts) is made with one level of depth,
  which is no recursion; the registry is the one passed in, absent if it was absent; the
  heap gains the copy and nothing else. The copy holds the values the original holds:
  the elements of an array, the own string and symbol properties of a plain structure.
  A child that is a container is therefore the same reference in both.
\<close>

theorem shallow_shares_children:
  assumes "heapGet h a = Some ob" and "bm AND CLONE_DEEP_FLAG = 0"
    and "isArray ob \<or> plainStructure ob object"
  shows "\<exists>copy. baseClone (Suc n) (Ref a) bm None key object stack h
                  = Some (Ref (length h), stack, h @ [copy])
          \<and> (isArray ob \<longrightarrow> (\<forall>i. getProp copy (Num i) = getProp ob (Num i)))
          \<and> (\<not> isArray ob \<longrightarrow>
               (\<forall>k \<in> fst ` set (props ob).
                   isStrKey k \<or> isSymKey k \<longrightarrow> getProp copy k = getProp ob k))"
  using assms by (rule baseClone_shallow_copy)

theorem shallow_shares_children_witness:
  "\<exists>copy. baseClone (Suc 0) (Ref 0) 0 None Undefined Undefined None
              [plainObject [(Str ''child'', Ref 1)], plainObject []]
            = Some (Ref 2, None, [plainObject [(Str ''child'', Ref 1)], plainObject [], copy])
          \<and> getProp copy (Str ''child'') = Ref 1"
proof -
  let ?x = "plainObject [(Str ''child'', Ref 1)]"
  have 1: "heapGet [?x, plainObject []] 0 = Some ?x" by (simp add: heapGet_def)
  have 2: "(0::nat) AND CLONE_DEEP_FLAG = 0" by simp
  have 3: "isArray ?x \<or> plainStructure ?x Undefined"
    by (simp add: plainStructure_def getTag_def plainObject_def)
  have 4: "\<not> isArray ?x" by (simp add: isArray_def plainObject_def)
  from shallow_shares_children [OF 1 2 3, of 0 Undefined None] 4
  show ?thesis by (auto simp: plainObject_def isStrKey_def getProp_def)
qed

text \<open>
  Not for every value: a \<open>Date\<close> with an own property \<open>child\<close> goes through the
  registry and the loop over its keys, and the shallow clone holds a copy of the child
  (the new object 3), not the child (object 1).
\<close>

theorem shallow_wrapper_counterexample:
  "shallowClone (Suc (Suc 0)) (Ref 0)
       [objectOf (KDate 5) [(Str ''child'', Ref 1)], plainObject []]
     = Some (Ref 2, Some [(Ref 0, Ref 2)],
         [objectOf (KDate 5) [(Str ''child'', Ref 1)], plainObject [],
          objectOf (KDate 5) [(Str ''child'', Ref 3)], plainObject []])"
  by (simp add: evalDefs)

section \<open>The loop over the keys of a deep clone\<close>

lemma forEach_inv_seen:
  assumes "forEach xs f s = Some s'" and "I [] s"
    and "\<And>pre x post s s'. xs = pre @ x # post \<Longrightarrow> I pre s \<Longrightarrow> f x s = Some s' \<Longrightarrow> I (pre @ [x]) s'"
  shows "I xs s'"
proof -
  have "\<And>pre s. xs = pre @ ys \<Longrightarrow> I pre s \<Longrightarrow> forEach ys f s = Some s' \<Longrightarrow> I xs s'" for ys
  proof (induction ys)
    case Nil
    then show ?case by simp
  next
    case (Cons y ys)
    from Cons.prems(3) obtain s1 where s1: "f y s = Some s1" and rest: "forEach ys f s1 = Some s'"
      by (auto split: option.splits)
    have "I (pre @ [y]) s1" using assms(3) [OF Cons.prems(1,2) s1] .
    then show ?case using Cons.IH [of "pre @ [y]" s1] Cons.prems(1) rest by simp
  qed
  from this [of "[]" xs s] assms(1,2) show ?thesis by simp
qed

text \<open>A call on a value that is in the registry, or enters it, returns the clone the registry has.\<close>

lemma baseClone_registered:
  assumes "baseClone n v bm None k p st h = Some (r, st', h')"
    and "v = Ref a" and "heapGet h a = Some ob"
    and "initClone v ob (bm AND CLONE_DEEP_FLAG) (bm AND CLONE_FLAT_FLAG) p h = Some (Populate res h1)"
  shows "stackGet (stackOf st') v = r \<and> truthy r \<and> st' \<noteq> None"
proof (cases "truthy (stackGet (stackOf st) v)")
  case True
  obtain m where n: "n = Suc m" using assms(1) by (cases n) auto
  have "baseClone (Suc m) v bm None k p st h = Some (stackGet (stackOf st) v, Some (stackOf st), h1)"
    using True assms(2-4) by (simp add: baseClone_Suc isObject_def)
  then have "r = stackGet (stackOf st) v" "st' = Some (stackOf st)"
    using assms(1) n by auto
  then show ?thesis using True by simp
next
  case False
  have c: "callCustomizer None v k p st h = (Undefined, h)" by simp
  from baseClone_registers_first [OF assms(1) c assms(2-4) False]
  have r: "r = res" "stackGet (stackOf st') v = res" by auto
  from initClone_Populate [OF assms(4)] obtain c where "res = Ref c" by blast
  moreover have "st' \<noteq> None"
  proof
    assume "st' = None"
    then have "stackGet (stackOf st') v = Undefined" by (simp add: stackGet_def)
    then show False using r calculation by simp
  qed
  ultimately show ?thesis using r by (simp add: truthy_def)
qed


lemma props_loop_inv:
  fixes I :: "val list \<Rightarrow> stack \<Rightarrow> heap \<Rightarrow> bool"
  assumes run: "forEach ks (visitProp (\<lambda>sv key. baseClone n sv bm None key v) a (Ref c)) st1
                  = Some st2"
    and ob: "heapGet (snd st0) a = Some ob"
    and c: "length (snd st0) \<le> c"
    and base: "extends st0 (stackOf (fst st1), snd st1)" "fst st1 \<noteq> None"
      "c < length (snd st1)" "\<not> isArray (snd st1 ! c)"
    and I0: "I [] (stackOf (fst st1)) (snd st1)"
    and step: "\<And>pre x post s h r s' h'. ks = pre @ x # post \<Longrightarrow> extends st0 (s, h) \<Longrightarrow>
         c < length h \<Longrightarrow> \<not> isArray (h ! c) \<Longrightarrow> I pre s h \<Longrightarrow>
         baseClone n (getProp ob x) bm None x v (Some s) h = Some (r, Some s', h') \<Longrightarrow>
         extends (s, h) (s', h') \<Longrightarrow> h' ! c = h ! c \<Longrightarrow>
         I (pre @ [x]) s' (h'[c := (h ! c)\<lparr>props := AList.update x r (props (h ! c))\<rparr>])"
  shows "I ks (stackOf (fst st2)) (snd st2) \<and> extends st0 (stackOf (fst st2), snd st2)
           \<and> c < length (snd st2) \<and> \<not> isArray (snd st2 ! c) \<and> fst st2 \<noteq> None"
proof -
  let ?J = "\<lambda>pre st. I pre (stackOf (fst st)) (snd st) \<and> extends st0 (stackOf (fst st), snd st)
           \<and> c < length (snd st) \<and> \<not> isArray (snd st ! c) \<and> fst st \<noteq> None"
  have "?J ks st2"
  proof (rule forEach_inv_seen [where I = ?J, OF run])
    show "?J [] st1" using base I0 by simp
  next
    fix pre x post st st'
    assume ks: "ks = pre @ x # post" and J: "?J pre st"
      and vp: "visitProp (\<lambda>sv key. baseClone n sv bm None key v) a (Ref c) x st = Some st'"
    from J obtain s where s: "fst st = Some s" by auto
    let ?h = "snd st"
    have e0: "extends st0 (s, ?h)" using J s by simp
    have cur: "heapGet ?h a = Some ob"
      using ob extends_prefixD [OF e0] by (auto intro: heapGet_prefix)
    from vp cur have ci: "cloneInto (\<lambda>sv key. baseClone n sv bm None key v)
          (\<lambda>h r. assignValue h (Ref c) x r) (getProp ob x) x st = Some st'"
      by (simp add: visitProp_def)
    then obtain r h1 where rec: "baseClone n (getProp ob x) bm None x v (Some s) ?h
          = Some (r, fst st', h1)"
      and put: "assignValue h1 (Ref c) x r = Some (snd st')"
      using s by (auto elim: cloneInto_Some)
    from baseClone_extends [OF rec] obtain s' where s': "fst st' = Some s'"
      and e1: "extends (s, ?h) (s', h1)" by auto
    have pre1: "prefix ?h h1" using e1 by (auto dest: extends_prefixD)
    have c1: "c < length h1" using J pre1 prefix_length_le by fastforce
    have same: "h1 ! c = ?h ! c" using pre1 J by (auto intro: prefix_nth_eq)
    have na: "\<not> isArray (h1 ! c)" using same J by simp
    have eq: "snd st' = h1[c := (?h ! c)\<lparr>props := AList.update x r (props (?h ! c))\<rparr>]"
      using put c1 setProp_plain [OF na] same by (simp add: assignValue_def heapGet_def)
    have "I (pre @ [x]) s' (snd st')"
      unfolding eq
      using step [OF ks e0 _ _ _ rec [unfolded s'] e1 same] J s by simp
    moreover have "extends st0 (s', snd st')"
      unfolding eq using extends_update [OF extends_trans [OF e0 e1] c] .
    moreover have "c < length (snd st')" "\<not> isArray (snd st' ! c)"
      using c1 J unfolding eq by (simp_all add: isArray_def)
    ultimately show "?J (pre @ [x]) st'" using s' by simp
  qed
  then show ?thesis by simp
qed


text \<open>
  The same for every object the loop over the keys populates: the shell is no array, and
  the call is the loop over the keys.
\<close>

lemma initClone_tracked:
  assumes "isDeep \<noteq> 0" and "\<not> isBuffer bo" and "\<not> isFunc bo"
    and "cloneableTags (getTag bo) = Some True" and "backingOK h bo"
  shows "\<exists>res h1. initClone v bo isDeep isFlat p h = Some (Populate res h1)"
proof -
  have "\<And>d. \<exists>y. initCloneByTag h bo (getTag bo) d = Some y"
    using initCloneByTag_progress [OF assms(5,2)] by auto
  from this [of True] this [of False] this [of "isDeep \<noteq> 0"] show ?thesis
    using assms(1-4) by (auto simp: initClone_def Let_def alloc_def)
qed

lemma isArray_iff: "isArray ob \<longleftrightarrow> (\<exists>es. kind ob = KArray es)"
  by (cases "kind ob") (simp_all add: isArray_def)

lemma initClone_shell_kind:
  assumes "initClone value ob isDeep isFlat object h = Some (Populate (Ref c) h')"
    and "\<forall>es. kind ob \<noteq> KArray es"
  shows "\<forall>es. kind (h' ! c) \<noteq> KArray es"
  using assms
  by (cases "kind ob")
     (auto simp: initClone_def Let_def isArray_def isBuffer_def isFunc_def getTag_def alloc_def
        cloneBuffer_def tagDefs typedTag_def initCloneByTag_def cloneableTags_def
        cloneArrayBuffer_def cloneDataView_def cloneTypedArray_def cloneBackingBuffer_def
        newCtor_def nth_append emptyObject_def initCloneObject_def cloneRegExp_def cloneSymbol_def
        split: if_splits option.splits tykind.splits prod.splits val.splits kind.splits)

lemma initClone_shell:
  assumes "initClone value ob isDeep isFlat object h = Some (Populate res h')" and "\<not> isArray ob"
  shows "\<exists>c. res = Ref c \<and> length h \<le> c \<and> c < length h' \<and> prefix h h' \<and> \<not> isArray (h' ! c)"
proof -
  from initClone_Populate [OF assms(1)] obtain c where c: "res = Ref c" "length h \<le> c"
    "c < length h'" "prefix h h'" by blast
  from initClone_shell_kind [OF assms(1) [unfolded c(1)]] assms(2)
  have "\<not> isArray (h' ! c)" by (simp add: isArray_iff)
  with c show ?thesis by blast
qed

lemma baseClone_key_loop:
  assumes run: "baseClone n (Ref a) bm None k p st h = Some (r, st', h')"
    and ob: "heapGet h a = Some ob"
    and ic: "initClone (Ref a) ob (bm AND CLONE_DEEP_FLAG) (bm AND CLONE_FLAT_FLAG) p h
               = Some (Populate res h1)"
    and tg: "getTag ob \<noteq> mapTag" "getTag ob \<noteq> setTag" "\<not> isTypedArray ob"
    and new: "\<not> truthy (stackGet (stackOf st) (Ref a))"
  shows "\<exists>m. n = Suc m \<and> r = res \<and>
           forEach (visitKeys ob (bm AND CLONE_FLAT_FLAG) (bm AND CLONE_SYMBOLS_FLAG))
             (visitProp (\<lambda>sv key. baseClone m sv bm None key (Ref a)) a res)
             (Some (stackSet (stackOf st) (Ref a) res), h1)
           = Some (st', h')"
proof -
  obtain m where n: "n = Suc m" using run by (cases n) auto
  show ?thesis
    using run [unfolded n] ob ic new
    by (auto simp: baseClone_Suc isObject_def n populate_props [OF tg] split: option.splits)
qed

lemma keyLooped_tags:
  assumes "keyLooped ob \<or> isFunc ob"
  shows "getTag ob \<noteq> mapTag" "getTag ob \<noteq> setTag" "\<not> isTypedArray ob" "\<not> isArray ob"
    "\<not> isBuffer ob"
  using assms
  by (auto simp: keyLooped_def isFunc_def getTag_def isTypedArray_def isArray_def isBuffer_def tagDefs)

lemma initClone_root_populates:
  assumes kl: "keyLooped ob \<or> isFunc ob" and deep: "isDeep \<noteq> 0" and bk: "backingOK h ob"
    and p: "\<not> truthy p"
  shows "\<exists>res h1. initClone v ob isDeep isFlat p h = Some (Populate res h1)"
proof (cases "isFunc ob")
  case True
  then have "\<not> isArray ob" "\<not> isBuffer ob" using keyLooped_tags [of ob] by auto
  then show ?thesis using True deep p by (auto simp: initClone_def alloc_def)
next
  case False
  then have "keyLooped ob" using kl by simp
  then show ?thesis using initClone_tracked [OF deep _ _ _ bk, of v isFlat p]
    by (auto simp: keyLooped_def)
qed

text \<open>
  Reading a property after writing one, and the loop over the keys with the write of
  line 296 as \<open>setProp\<close>, for shells that are arrays as well.
\<close>

lemma isArray_setProp: "isArray (setProp ob x r) = isArray ob"
  by (cases "kind ob"; cases x) (simp_all add: setProp_def isArray_def)

lemma nth_setElem:
  "(if j < length (setElem es i r) then setElem es i r ! j else Undefined)
     = (if j = i then r else if j < length es then es ! j else Undefined)"
  by (auto simp: setElem_def nth_append nth_Cons')

lemma getProp_setProp:
  assumes "isArray ob \<Longrightarrow> \<forall>i. x = Num i \<longrightarrow> 0 \<le> i"
  shows "getProp (setProp ob x r) k = (if k = x then r else getProp ob k)"
proof (cases "isArray ob")
  case False
  then have "\<not> isArray (setProp ob x r)" by (simp add: isArray_setProp)
  then show ?thesis using False
    by (auto simp: getProp_plain setProp_plain update_conv' split: option.splits)
next
  case True
  then obtain es where es: "kind ob = KArray es" by (auto simp: isArray_iff)
  show ?thesis
  proof (cases "\<exists>i. x = Num i")
    case X: True
    then obtain i where x: "x = Num i" and i: "0 \<le> i" using assms [OF True] by auto
    have sp: "setProp ob (Num i) r = ob\<lparr>kind := KArray (setElem es (nat i) r)\<rparr>"
      using es i by (simp add: setProp_def)
    show ?thesis
    proof (cases k)
      case (Num j)
      show ?thesis
      proof (cases "0 \<le> j")
        case True
        have "nat j = nat i \<longleftrightarrow> j = i" using True i by auto
        then show ?thesis
          using nth_setElem [of "nat j" es "nat i" r] True es Num
          unfolding x sp by (simp add: getProp_def)
      next
        case False
        then show ?thesis using es Num i unfolding x sp by (auto simp: getProp_def)
      qed
    qed (use es in \<open>auto simp: x sp getProp_def split: option.splits\<close>)
  next
    case False
    then have sp: "setProp ob x r = ob\<lparr>props := AList.update x r (props ob)\<rparr>"
      using es by (cases x) (simp_all add: setProp_def)
    show ?thesis
      using es False unfolding sp
      by (cases k) (auto simp: getProp_def update_conv' split: option.splits)
  qed
qed

lemma keys_loop_inv:
  fixes I :: "val list \<Rightarrow> stack \<Rightarrow> heap \<Rightarrow> bool"
  assumes run: "forEach ks (visitProp (\<lambda>sv key. baseClone n sv bm None key v) a (Ref c)) st1
                  = Some st2"
    and ob: "heapGet (snd st0) a = Some ob"
    and c: "length (snd st0) \<le> c"
    and base: "extends st0 (stackOf (fst st1), snd st1)" "fst st1 \<noteq> None"
      "c < length (snd st1)" "isArray (snd st1 ! c) = isArray ob"
    and I0: "I [] (stackOf (fst st1)) (snd st1)"
    and step: "\<And>pre x post s h r s' h'. ks = pre @ x # post \<Longrightarrow> extends st0 (s, h) \<Longrightarrow>
         c < length h \<Longrightarrow> isArray (h ! c) = isArray ob \<Longrightarrow> I pre s h \<Longrightarrow>
         baseClone n (getProp ob x) bm None x v (Some s) h = Some (r, Some s', h') \<Longrightarrow>
         extends (s, h) (s', h') \<Longrightarrow> h' ! c = h ! c \<Longrightarrow>
         I (pre @ [x]) s' (h'[c := setProp (h ! c) x r])"
  shows "I ks (stackOf (fst st2)) (snd st2) \<and> extends st0 (stackOf (fst st2), snd st2)
           \<and> c < length (snd st2) \<and> isArray (snd st2 ! c) = isArray ob \<and> fst st2 \<noteq> None"
proof -
  let ?J = "\<lambda>pre st. I pre (stackOf (fst st)) (snd st) \<and> extends st0 (stackOf (fst st), snd st)
           \<and> c < length (snd st) \<and> isArray (snd st ! c) = isArray ob \<and> fst st \<noteq> None"
  have "?J ks st2"
  proof (rule forEach_inv_seen [where I = ?J, OF run])
    show "?J [] st1" using base I0 by simp
  next
    fix pre x post st st'
    assume ks: "ks = pre @ x # post" and J: "?J pre st"
      and vp: "visitProp (\<lambda>sv key. baseClone n sv bm None key v) a (Ref c) x st = Some st'"
    from J obtain s where s: "fst st = Some s" by auto
    let ?h = "snd st"
    have e0: "extends st0 (s, ?h)" using J s by simp
    have cur: "heapGet ?h a = Some ob"
      using ob extends_prefixD [OF e0] by (auto intro: heapGet_prefix)
    from vp cur have ci: "cloneInto (\<lambda>sv key. baseClone n sv bm None key v)
          (\<lambda>h r. assignValue h (Ref c) x r) (getProp ob x) x st = Some st'"
      by (simp add: visitProp_def)
    then obtain r h1 where rec: "baseClone n (getProp ob x) bm None x v (Some s) ?h
          = Some (r, fst st', h1)"
      and put: "assignValue h1 (Ref c) x r = Some (snd st')"
      using s by (auto elim: cloneInto_Some)
    from baseClone_extends [OF rec] obtain s' where s': "fst st' = Some s'"
      and e1: "extends (s, ?h) (s', h1)" by auto
    have pre1: "prefix ?h h1" using e1 by (auto dest: extends_prefixD)
    have c1: "c < length h1" using J pre1 prefix_length_le by fastforce
    have same: "h1 ! c = ?h ! c" using pre1 J by (auto intro: prefix_nth_eq)
    have eq: "snd st' = h1[c := setProp (?h ! c) x r]"
      using put c1 same by (simp add: assignValue_def heapGet_def)
    have "I (pre @ [x]) s' (snd st')"
      unfolding eq
      using step [OF ks e0 _ _ _ rec [unfolded s'] e1 same] J s by simp
    moreover have "extends st0 (s', snd st')"
      unfolding eq using extends_update [OF extends_trans [OF e0 e1] c] .
    moreover have "c < length (snd st')" "isArray (snd st' ! c) = isArray ob"
      using c1 J unfolding eq by (simp_all add: isArray_setProp)
    ultimately show "?J (pre @ [x]) st'" using s' by simp
  qed
  then show ?thesis by simp
qed

lemma initClone_deep_array:
  assumes "isArray ob" and "isDeep \<noteq> 0"
  shows "initClone value ob isDeep isFlat object h
           = Some (Populate (Ref (length h)) (h @ [initCloneArray ob]))"
  using assms by (simp add: initClone_def alloc_def)

lemma isArray_initCloneArray: "isArray (initCloneArray ob)"
  by (simp add: initCloneArray_def isArray_def newCtor_def Let_def)

lemma initClone_shell_same:
  assumes "initClone value ob isDeep isFlat object h = Some (Populate res h')"
  shows "\<exists>c. res = Ref c \<and> length h \<le> c \<and> c < length h' \<and> prefix h h'
           \<and> isArray (h' ! c) = isArray ob"
proof (cases "isArray ob")
  case False
  from initClone_shell [OF assms False] False show ?thesis by auto
next
  case True
  have "isDeep \<noteq> 0" using assms True
    by (auto simp: initClone_def alloc_def Let_def split: if_splits)
  from initClone_deep_array [OF True this, of "value" isFlat object h] assms True
  show ?thesis by (auto simp: isArray_initCloneArray)
qed

lemma visited_tags:
  assumes "isArray ob \<or> isFunc ob \<or> keyLooped ob"
  shows "getTag ob \<noteq> mapTag" "getTag ob \<noteq> setTag" "\<not> isTypedArray ob" "\<not> isBuffer ob"
  using assms
  by (auto simp: keyLooped_def isFunc_def getTag_def isTypedArray_def isArray_def isBuffer_def
      tagDefs split: kind.splits)

lemma initClone_deep_populates:
  assumes kl: "isArray ob \<or> isFunc ob \<or> keyLooped ob" and deep: "isDeep \<noteq> 0"
    and bk: "backingOK h ob" and p: "\<not> truthy p"
  shows "\<exists>res h1. initClone v ob isDeep isFlat p h = Some (Populate res h1)"
proof (cases "isArray ob")
  case True
  then show ?thesis using initClone_deep_array [OF True deep] by simp
next
  case False
  then have "keyLooped ob \<or> isFunc ob" using kl by auto
  from initClone_root_populates [OF this deep bk p] show ?thesis .
qed

lemma indices_nonneg: "Num i \<in> set (indices ob) \<Longrightarrow> 0 \<le> i"
  by (auto simp: indices_def)

lemma initClone_kept:
  assumes "isFunc bo \<or> cloneableTags (getTag bo) \<noteq> Some True" and "truthy p"
  shows "initClone v bo isDeep isFlat p h = Some (Done v h)"
proof -
  have "kind bo = KFunction \<or> kind bo = KError \<or> kind bo = KWeakMap \<or> kind bo = KPromise"
    using assms(1) cloneableTags_cases [of bo] by (auto simp: isFunc_def)
  then show ?thesis
    using assms(2)
    by (auto simp: initClone_def isArray_def isBuffer_def isFunc_def getTag_def cloneableTags_def
        tagDefs)
qed

lemma baseClone_kept:
  assumes "baseClone n (Ref b) bm None k p st h = Some (r, st', h')"
    and "heapGet h b = Some bo" and "isFunc bo \<or> cloneableTags (getTag bo) \<noteq> Some True"
    and "truthy p"
  shows "r = Ref b \<and> st' = st \<and> h' = h"
proof -
  obtain m where n: "n = Suc m" using assms(1) by (cases n) auto
  show ?thesis
    using assms unfolding n
    by (simp add: baseClone_Suc isObject_def initClone_kept)
qed


lemma baseClone_tracked:
  assumes rec: "baseClone n v bm None k p st hh = Some (r, st', h')"
    and deep: "bm AND CLONE_DEEP_FLAG \<noteq> 0"
    and wf: "wfHeap h" and pre: "prefix h hh" and tr: "tracked h v"
  shows "stackGet (stackOf st') v = r \<and> truthy r"
proof -
  from tr obtain b bo where v: "v = Ref b" and bo: "heapGet h b = Some bo"
    and nb: "\<not> isBuffer bo" "\<not> isFunc bo" "cloneableTags (getTag bo) = Some True"
    by (auto simp: tracked_def split: val.splits option.splits)
  have bN: "b < length h" and bo_eq: "h ! b = bo" using bo by (simp_all add: heapGet_Some)
  have cur: "heapGet hh b = Some bo" using bo pre by (rule_tac heapGet_prefix)
  have "backingOK hh bo" using wfHeap_nth(1) [OF wf bN] bo_eq pre by (auto intro: backingOK_prefix)
  from initClone_tracked [OF deep nb this] obtain res hx where
    "initClone v bo (bm AND CLONE_DEEP_FLAG) (bm AND CLONE_FLAT_FLAG) p hh
       = Some (Populate res hx)" by blast
  from baseClone_registered [OF rec v cur this] show ?thesis by simp
qed

section \<open>Cycles\<close>



lemma stackGet_empty [simp]: "stackGet [] v = Undefined"
  by (simp add: stackGet_def)

lemma not_truthy_Undefined [simp]: "\<not> truthy Undefined"
  by (simp add: truthy_def)

lemma truthy_Ref [simp]: "truthy (Ref c)"
  by (simp add: truthy_def)


text \<open>
  A call at the top on an object returns a reference to a new object; and the call on an
  object with \<open>self\<close> among its visited keys gives a clone that is its own
  \<open>self\<close>.
\<close>

lemma initClone_Done_fresh:
  assumes "initClone value ob isDeep isFlat object h = Some (Done r h')" and "\<not> truthy object"
  shows "\<exists>c. r = Ref c \<and> length h \<le> c \<and> c < length h'"
  using assms
  by (cases "kind ob")
     (auto simp: initClone_def Let_def isArray_def isBuffer_def isFunc_def getTag_def alloc_def
        cloneBuffer_def tagDefs typedTag_def
        split: if_splits option.splits tykind.splits prod.splits)

lemma baseClone_root_fresh:
  assumes run: "baseClone n (Ref a) bm None k p None h = Some (r, st', h')" and p: "\<not> truthy p"
  shows "\<exists>c. r = Ref c \<and> length h \<le> c \<and> c < length h'"
proof -
  obtain m where n: "n = Suc m" using run by (cases n) auto
  from run [unfolded n] show ?thesis
  proof (cases rule: baseClone_Suc_cases)
    case repl
    then show ?thesis by simp
  next
    case prim
    then show ?thesis by (simp add: isObject_def)
  next
    case (fin h0 a' ob)
    then have "h0 = h" by simp
    with fin(4) p show ?thesis by (auto dest: initClone_Done_fresh)
  next
    case (stacked h0 a' ob res)
    then show ?thesis by simp
  next
    case (pop h0 a' ob h1)
    then have h0: "h0 = h" by simp
    from initClone_Populate [OF pop(4)] obtain c where c: "r = Ref c" "length h \<le> c"
      "c < length h1" unfolding h0 by blast
    let ?I = "\<lambda>st2. c < length (snd st2)"
    have "?I (st', h')"
    proof (rule populate_inv [where I = ?I, OF pop(6) [unfolded c(1)]])
      show "?I (Some (stackSet (stackOf None) (Ref a) (Ref c)), h1)" using c(3) by simp
    next
      fix sv key put st2 st3
      assume I: "?I st2" and put: "putsAt c put"
        and ci: "cloneInto (\<lambda>subValue key. baseClone m subValue bm None key (Ref a)) put sv key st2
                   = Some st3"
      from ci obtain r' h3 where rec: "baseClone m sv bm None key (Ref a) (fst st2) (snd st2)
            = Some (r', fst st3, h3)" and pp: "put h3 r' = Some (snd st3)"
        by (rule cloneInto_Some)
      have "prefix (snd st2) h3" using baseClone_extends [OF rec] by (auto dest: extends_prefixD)
      then have "c < length h3" using I prefix_length_le by fastforce
      moreover from put pp obtain ob' where "snd st3 = h3[c := ob']" unfolding putsAt_def by blast
      ultimately show "?I st3" by simp
    qed
    then show ?thesis using c by simp
  qed
qed

lemma self_reference_run:
  assumes run: "baseClone n (Ref a) bm None Undefined Undefined None h = Some (r, st', h')"
    and wf: "wfHeap h" and ob: "heapGet h a = Some ob"
    and kl: "keyLooped ob"
    and self: "Str ''self'' \<in> set (visitKeys ob (bm AND CLONE_FLAT_FLAG) (bm AND CLONE_SYMBOLS_FLAG))"
      "getProp ob (Str ''self'') = Ref a"
    and deep: "bm AND CLONE_DEEP_FLAG \<noteq> 0"
  shows "\<exists>c. r = Ref c \<and> getProp (h' ! c) (Str ''self'') = Ref c"
proof -
  let ?self = "Str ''self''"
  let ?ks = "visitKeys ob (bm AND CLONE_FLAT_FLAG) (bm AND CLONE_SYMBOLS_FLAG)"
  have aN: "a < length h" and ob_eq: "h ! a = ob" using ob by (simp_all add: heapGet_Some)
  have bk: "backingOK h ob" using wfHeap_nth(1) [OF wf aN] ob_eq by simp
  have trk: "\<not> isBuffer ob" "\<not> isFunc ob" "cloneableTags (getTag ob) = Some True"
    using kl by (simp_all add: keyLooped_def)
  have tg: "getTag ob \<noteq> mapTag" "getTag ob \<noteq> setTag" "\<not> isTypedArray ob" and na: "\<not> isArray ob"
    using kl by (simp_all add: keyLooped_def)
  from initClone_tracked [OF deep trk bk] obtain res h1 where
    ic: "initClone (Ref a) ob (bm AND CLONE_DEEP_FLAG) (bm AND CLONE_FLAT_FLAG) Undefined h
           = Some (Populate res h1)" by blast
  from initClone_shell [OF ic na] obtain c where c: "res = Ref c" "length h \<le> c"
    "c < length h1" "prefix h h1" "\<not> isArray (h1 ! c)" by blast
  let ?s1 = "stackSet [] (Ref a) (Ref c)"
  from baseClone_key_loop [OF run ob ic tg] obtain m where n: "n = Suc m"
    and r: "r = Ref c"
    and loop: "forEach ?ks
             (visitProp (\<lambda>sv key. baseClone m sv bm None key (Ref a)) a (Ref c))
             (Some ?s1, h1) = Some (st', h')"
    using c(1) by auto
  let ?I = "\<lambda>pre (s::stack) (hh::heap).
      ?self \<in> set pre \<longrightarrow> map_of (props (hh ! c)) ?self = Some (Ref c)"
  have res: "?I ?ks (stackOf (fst (st', h'))) (snd (st', h'))
           \<and> extends (?s1, h) (stackOf (fst (st', h')), snd (st', h'))
           \<and> c < length (snd (st', h')) \<and> \<not> isArray (snd (st', h') ! c)
           \<and> fst (st', h') \<noteq> None"
  proof (rule props_loop_inv [where I = ?I and ?st0.0 = "(?s1, h)" and ob = ob, OF loop])
    show "heapGet (snd (?s1, h)) a = Some ob" using ob by simp
    show "extends (?s1, h) (stackOf (fst (Some ?s1, h1)), snd (Some ?s1, h1))"
      using c(4) by (simp add: extends_prefix)
    show "length (snd (?s1, h)) \<le> c" using c(2) by simp
    show "c < length (snd (Some ?s1, h1))" using c(3) by simp
    show "\<not> isArray (snd (Some ?s1, h1) ! c)" using c(5) by simp
  next
    fix pre x post s hh r s' h2
    assume e0: "extends (?s1, h) (s, hh)" and cl: "c < length hh"
      and I: "?I pre s hh"
      and rec: "baseClone m (getProp ob x) bm None x (Ref a) (Some s) hh = Some (r, Some s', h2)"
      and e1: "extends (s, hh) (s', h2)"
    have c1: "c < length h2"
      using cl extends_prefixD [OF e1] prefix_length_le by fastforce
    show "?I (pre @ [x]) s' (h2[c := (hh ! c)\<lparr>props := AList.update x r (props (hh ! c))\<rparr>])"
    proof (cases "x = ?self")
      case True
      have pre0: "prefix h hh" using extends_prefixD [OF e0] by simp
      have cur: "heapGet hh a = Some ob" using ob pre0 by (rule_tac heapGet_prefix)
      have "backingOK hh ob" using pre0 bk by (rule backingOK_prefix)
      from initClone_tracked [OF deep trk this] obtain res' hx where
        ic': "initClone (Ref a) ob (bm AND CLONE_DEEP_FLAG) (bm AND CLONE_FLAT_FLAG) (Ref a) hh
               = Some (Populate res' hx)" by blast
      have "stackGet s (Ref a) = Ref c"
        using extends_stackGet [OF e0, of "Ref a"] by (simp add: stackGet_stackSet)
      moreover have "stackGet s' (Ref a) = r"
        using baseClone_registered [OF rec [unfolded True self(2)] refl cur ic'] by simp
      ultimately have "r = Ref c" using extends_stackGet [OF e1, of "Ref a"] by simp
      then show ?thesis using c1 True by (simp add: update_conv')
    next
      case False
      then show ?thesis using c1 I by (simp add: update_conv')
    qed
  qed simp_all
  have "getProp (h' ! c) ?self = Ref c" using res self(1) by (simp add: getProp_plain)
  then show ?thesis using r by blast
qed




text \<open>
  Named properties the loop over the keys never reaches: the clone of an array, of a
  \<open>Map\<close> or of a \<open>Set\<close> has none of them, and an error object at the top
  clones to an empty object.
\<close>

lemma named_properties_not_copied:
  "deepClone (Suc (Suc 0)) (Ref 0) [objectOf (KArray [Num 7]) [(Str ''self'', Ref 0)]]
     = Some (Ref 1, Some [(Ref 0, Ref 1)],
         [objectOf (KArray [Num 7]) [(Str ''self'', Ref 0)], objectOf (KArray [Num 7]) []])"
  "deepClone (Suc 0) (Ref 0) [objectOf (KMap []) [(Str ''self'', Ref 0)]]
     = Some (Ref 1, Some [(Ref 0, Ref 1)],
         [objectOf (KMap []) [(Str ''self'', Ref 0)], objectOf (KMap []) []])"
  "deepClone (Suc 0) (Ref 0) [objectOf (KSet []) [(Str ''self'', Ref 0)]]
     = Some (Ref 1, Some [(Ref 0, Ref 1)],
         [objectOf (KSet []) [(Str ''self'', Ref 0)], objectOf (KSet []) []])"
  "deepClone (Suc 0) (Ref 0) [objectOf KError [(Str ''self'', Ref 0)]]
     = Some (Ref 1, None, [objectOf KError [(Str ''self'', Ref 0)], emptyObject])"
  "deepClone (Suc 0) (Ref 0)
       [objectOf (KMap []) [(Str ''left'', Ref 1), (Str ''right'', Ref 1)], plainObject []]
     = Some (Ref 2, Some [(Ref 0, Ref 2)],
         [objectOf (KMap []) [(Str ''left'', Ref 1), (Str ''right'', Ref 1)], plainObject [],
          objectOf (KMap []) []])"
  by (simp_all add: evalDefs)

text \<open>
  C1, as amended. Let \<open>a\<close> be an object of a well-formed heap with
  \<open>a.self\<close> referring to \<open>a\<close>; whatever else \<open>a\<close> reaches. The
  deep clone of \<open>a\<close> without customizer returns, at some depth, a reference to a
  new object. When the clone of \<open>a\<close> gets its properties from the loop over the
  keys (\<open>a\<close> is a plain object, an \<open>arguments\<close> object, a \<open>Date\<close>,
  a \<open>RegExp\<close>, a wrapper of a primitive, an \<open>ArrayBuffer\<close> or a
  \<open>DataView\<close>) and \<open>self\<close> is among the keys the loop visits, as every own
  string key is and every inherited one under \<open>Flatten\<close>, the \<open>self\<close> of
  the new object is the new object itself.
\<close>

theorem deepClone_self_reference:
  assumes wf: "wfHeap h" and ob: "heapGet h a = Some ob"
    and self: "getProp ob (Str ''self'') = Ref a"
    and deep: "bm AND CLONE_DEEP_FLAG \<noteq> 0"
  shows "\<exists>n c st' h' clone.
           baseClone n (Ref a) bm None Undefined Undefined None h = Some (Ref c, st', h')
         \<and> c \<noteq> a \<and> heapGet h' c = Some clone
         \<and> (keyLooped ob
              \<and> Str ''self'' \<in> set (visitKeys ob (bm AND CLONE_FLAT_FLAG) (bm AND CLONE_SYMBOLS_FLAG))
              \<longrightarrow> getProp clone (Str ''self'') = Ref c)"
proof -
  have aN: "a < length h" using ob by (simp add: heapGet_Some)
  from baseClone_terminates [OF wf prefix_order.refl, of "Ref a" bm Undefined Undefined None] aN
  obtain n r st' h' where run: "baseClone n (Ref a) bm None Undefined Undefined None h
      = Some (r, st', h')"
    by (auto simp: refOK_def)
  from baseClone_root_fresh [OF run] obtain c where c: "r = Ref c" "length h \<le> c" "c < length h'"
    by auto
  have "keyLooped ob
          \<and> Str ''self'' \<in> set (visitKeys ob (bm AND CLONE_FLAT_FLAG) (bm AND CLONE_SYMBOLS_FLAG))
        \<longrightarrow> getProp (h' ! c) (Str ''self'') = Ref c"
    using self_reference_run [OF run wf ob _ _ self deep] c(1) by auto
  moreover have "heapGet h' c = Some (h' ! c)" using c(3) by (simp add: heapGet_def)
  moreover have "c \<noteq> a" using c(2) aN by simp
  ultimately show ?thesis using run [unfolded c(1)] by blast
qed

theorem deepClone_self_reference_witness:
  "(\<exists>n c st' h' clone.
      baseClone n (Ref 0) CLONE_DEEP_FLAG None Undefined Undefined None
          [plainObject [(Str ''self'', Ref 0)]] = Some (Ref c, st', h')
    \<and> c \<noteq> 0 \<and> heapGet h' c = Some clone \<and> getProp clone (Str ''self'') = Ref c)
   \<and> (\<exists>n c st' h' clone.
      baseClone n (Ref 0) CLONE_DEEP_FLAG None Undefined Undefined None
          [objectOf (KDate 5) [(Str ''self'', Ref 0)]] = Some (Ref c, st', h')
    \<and> c \<noteq> 0 \<and> heapGet h' c = Some clone \<and> getProp clone (Str ''self'') = Ref c)"
proof -
  let ?a = "plainObject [(Str ''self'', Ref 0)]"
  let ?d = "objectOf (KDate 5) [(Str ''self'', Ref 0)]"
  have 1: "wfHeap [?a]" "wfHeap [?d]"
    by (simp_all add: wfHeap_def backingOK_def childVals_def refOK_def plainObject_def
        objectOf_def elems_def mapEntries_def setMembers_def)
  have 2: "heapGet [?a] 0 = Some ?a" "heapGet [?d] 0 = Some ?d" by (simp_all add: heapGet_def)
  have 3: "keyLooped ?a" "keyLooped ?d"
    by (simp_all add: keyLooped_def isArray_def isBuffer_def isFunc_def isTypedArray_def
        getTag_def cloneableTags_def tagDefs plainObject_def objectOf_def)
  have 4: "Str ''self'' \<in> set (visitKeys ?a (CLONE_DEEP_FLAG AND CLONE_FLAT_FLAG)
                                    (CLONE_DEEP_FLAG AND CLONE_SYMBOLS_FLAG))"
    "Str ''self'' \<in> set (visitKeys ?d (CLONE_DEEP_FLAG AND CLONE_FLAT_FLAG)
                                    (CLONE_DEEP_FLAG AND CLONE_SYMBOLS_FLAG))"
    by (simp_all add: visitKeys_def keys_def isStrKey_def isArray_def flagDefs plainObject_def
        objectOf_def)
  have 5: "getProp ?a (Str ''self'') = Ref 0" "getProp ?d (Str ''self'') = Ref 0"
    by (simp_all add: getProp_def plainObject_def objectOf_def)
  have 6: "CLONE_DEEP_FLAG AND CLONE_DEEP_FLAG \<noteq> 0" by (simp add: flagDefs)
  from deepClone_self_reference [OF 1(1) 2(1) 5(1) 6] 3(1) 4(1)
    deepClone_self_reference [OF 1(2) 2(2) 5(2) 6] 3(2) 4(2)
  show ?thesis by blast
qed

text \<open>
  Not for every object: the deep clone of a callable \<open>f\<close> with \<open>f.self = f\<close> is a
  plain object whose \<open>self\<close> is \<open>f\<close>, the original (object 0), since a callable
  met under a parent is returned as it is (line 237).
\<close>

theorem deepClone_self_callable_counterexample:
  "deepClone (Suc (Suc 0)) (Ref 0) [objectOf KFunction [(Str ''self'', Ref 0)]]
     = Some (Ref 1, Some [(Ref 0, Ref 1)],
         [objectOf KFunction [(Str ''self'', Ref 0)], plainObject [(Str ''self'', Ref 0)]])"
  by (simp add: evalDefs)

section \<open>Shared references\<close>

lemma extends_stackGet_fresh:
  assumes "extends (s, h) (s', h')" and "truthy (stackGet s' x)" and "\<not> truthy (stackGet s x)"
  shows "\<exists>d. stackGet s' x = Ref d \<and> length h \<le> d \<and> d < length h'"
proof -
  from assms(1) obtain new where new: "s' = s @ new"
    and fr: "\<forall>e \<in> set new. \<exists>c. snd e = Ref c \<and> length h \<le> c \<and> c < length h'"
    by (auto simp: extends_def)
  show ?thesis
  proof (cases "map_of (rev new) x")
    case None
    then show ?thesis using assms(2,3) new by (simp add: stackGet_append)
  next
    case (Some v)
    then have "(x, v) \<in> set new" using map_of_SomeD by fastforce
    then show ?thesis using fr Some new by (fastforce simp: stackGet_append)
  qed
qed

text \<open>
  C2, as amended. Let \<open>a\<close> be an object of a well-formed heap that the loop of
  lines 279 to 301 populates: an array, a callable, or an object as in C1. Let two of the
  keys the loop visits on \<open>a\<close> (the indices of an array; the own string keys of
  another object, the inherited ones under \<open>Flatten\<close>, the symbol keys under
  \<open>IncludeSymbolicKeys\<close>) refer to the same object \<open>b\<close>, which is no
  binary buffer; \<open>b\<close> may be part of a cycle, and may be \<open>a\<close>. The deep
  clone of \<open>a\<close> without customizer returns a new object in which the two
  properties are one and the same value. When \<open>b\<close> is cloneable and no callable,
  that value is the clone the registry has for \<open>b\<close>, a new object; when
  \<open>b\<close> is a callable or is not cloneable, it is \<open>b\<close> itself, which line
  237 returns as it is.
\<close>

theorem deepClone_shared_reference:
  assumes wf: "wfHeap h" and ob: "heapGet h a = Some ob"
    and kl: "isArray ob \<or> isFunc ob \<or> keyLooped ob"
    and deep: "bm AND CLONE_DEEP_FLAG \<noteq> 0"
    and k1: "k1 \<in> set (visitKeys ob (bm AND CLONE_FLAT_FLAG) (bm AND CLONE_SYMBOLS_FLAG))"
      "getProp ob k1 = Ref b"
    and k2: "k2 \<in> set (visitKeys ob (bm AND CLONE_FLAT_FLAG) (bm AND CLONE_SYMBOLS_FLAG))"
      "getProp ob k2 = Ref b"
    and bo: "heapGet h b = Some bo" "\<not> isBuffer bo"
  shows "\<exists>n c st' h' clone v.
           baseClone n (Ref a) bm None Undefined Undefined None h = Some (Ref c, st', h')
         \<and> length h \<le> c \<and> heapGet h' c = Some clone
         \<and> getProp clone k1 = v \<and> getProp clone k2 = v
         \<and> (tracked h (Ref b) \<longrightarrow>
               v = stackGet (stackOf st') (Ref b)
             \<and> (\<exists>d. v = Ref d \<and> length h \<le> d \<and> d < length h'))
         \<and> (\<not> tracked h (Ref b) \<longrightarrow> v = Ref b)"
proof -
  let ?ks = "visitKeys ob (bm AND CLONE_FLAT_FLAG) (bm AND CLONE_SYMBOLS_FLAG)"
  have aN: "a < length h" and ob_eq: "h ! a = ob" using ob by (simp_all add: heapGet_Some)
  have bk: "backingOK h ob" using wfHeap_nth(1) [OF wf aN] ob_eq by simp
  note tg = visited_tags(1-3) [OF kl]
  from initClone_deep_populates [OF kl deep bk, of Undefined "Ref a" "bm AND CLONE_FLAT_FLAG"]
  obtain res h1 where
    ic: "initClone (Ref a) ob (bm AND CLONE_DEEP_FLAG) (bm AND CLONE_FLAT_FLAG) Undefined h
           = Some (Populate res h1)" by auto
  from initClone_shell_same [OF ic] obtain c where c: "res = Ref c" "length h \<le> c"
    "c < length h1" "prefix h h1" "isArray (h1 ! c) = isArray ob" by blast
  let ?s1 = "stackSet [] (Ref a) (Ref c)"
  from baseClone_terminates [OF wf prefix_order.refl, of "Ref a" bm Undefined Undefined None] aN
  obtain n r st' h' where run: "baseClone n (Ref a) bm None Undefined Undefined None h
      = Some (r, st', h')"
    by (auto simp: refOK_def)
  from baseClone_key_loop [OF run ob ic tg] obtain m where n: "n = Suc m"
    and r: "r = Ref c"
    and loop: "forEach ?ks
             (visitProp (\<lambda>sv key. baseClone m sv bm None key (Ref a)) a (Ref c))
             (Some ?s1, h1) = Some (st', h')"
    using c(1) by auto
  have untracked: "\<not> tracked h (Ref b) \<Longrightarrow> isFunc bo \<or> cloneableTags (getTag bo) \<noteq> Some True"
    using bo by (auto simp: tracked_def)
  have nonneg: "\<And>x. x \<in> set ?ks \<Longrightarrow> isArray ob \<Longrightarrow> \<forall>i. x = Num i \<longrightarrow> 0 \<le> i"
    by (auto simp: visitKeys_def dest: indices_nonneg)
  let ?V = "\<lambda>s::stack. if tracked h (Ref b) then stackGet s (Ref b) else Ref b"
  let ?I = "\<lambda>pre (s::stack) (hh::heap).
      \<forall>k \<in> {k1, k2}. k \<in> set pre \<longrightarrow> truthy (?V s) \<and> getProp (hh ! c) k = ?V s"
  have res: "?I ?ks (stackOf (fst (st', h'))) (snd (st', h'))
           \<and> extends (?s1, h) (stackOf (fst (st', h')), snd (st', h'))
           \<and> c < length (snd (st', h')) \<and> isArray (snd (st', h') ! c) = isArray ob
           \<and> fst (st', h') \<noteq> None"
  proof (rule keys_loop_inv [where I = ?I and ?st0.0 = "(?s1, h)" and ob = ob, OF loop])
    show "heapGet (snd (?s1, h)) a = Some ob" using ob by simp
    show "extends (?s1, h) (stackOf (fst (Some ?s1, h1)), snd (Some ?s1, h1))"
      using c(4) by (simp add: extends_prefix)
    show "length (snd (?s1, h)) \<le> c" using c(2) by simp
    show "c < length (snd (Some ?s1, h1))" using c(3) by simp
    show "isArray (snd (Some ?s1, h1) ! c) = isArray ob" using c(5) by simp
  next
    fix pre x post s hh r s' h2
    assume ks: "?ks = pre @ x # post"
      and e0: "extends (?s1, h) (s, hh)" and cl: "c < length hh"
      and arr: "isArray (hh ! c) = isArray ob"
      and I: "?I pre s hh"
      and rec: "baseClone m (getProp ob x) bm None x (Ref a) (Some s) hh = Some (r, Some s', h2)"
      and e1: "extends (s, hh) (s', h2)"
    have c1: "c < length h2"
      using cl extends_prefixD [OF e1] prefix_length_le by fastforce
    have pre0: "prefix h hh" using extends_prefixD [OF e0] by simp
    have cur: "heapGet hh b = Some bo" using bo(1) pre0 by (rule_tac heapGet_prefix)
    have "x \<in> set ?ks" unfolding ks by simp
    then have gs: "\<And>k. getProp (setProp (hh ! c) x r) k = (if k = x then r else getProp (hh ! c) k)"
      using nonneg arr by (intro getProp_setProp) simp
    have hit: "getProp ob x = Ref b \<Longrightarrow> r = ?V s' \<and> truthy r"
    proof -
      assume g: "getProp ob x = Ref b"
      show ?thesis
      proof (cases "tracked h (Ref b)")
        case True
        from baseClone_tracked [OF rec [unfolded g] deep wf pre0 True] True show ?thesis by simp
      next
        case False
        from baseClone_kept [OF rec [unfolded g] cur untracked [OF False]] False
        show ?thesis by simp
      qed
    qed
    have keep: "truthy (?V s) \<Longrightarrow> ?V s' = ?V s"
      using extends_stackGet [OF e1, of "Ref b"] by (cases "tracked h (Ref b)") auto
    show "?I (pre @ [x]) s' (h2[c := setProp (hh ! c) x r])"
    proof (intro ballI impI)
      fix k assume k: "k \<in> {k1, k2}" and kin: "k \<in> set (pre @ [x])"
      have gk: "getProp ob k = Ref b" using k k1(2) k2(2) by auto
      show "truthy (?V s') \<and> getProp (h2[c := setProp (hh ! c) x r] ! c) k = ?V s'"
      proof (cases "k = x")
        case True
        then have "r = ?V s'" "truthy r" using hit gk by auto
        then show ?thesis using True c1 gs by simp
      next
        case False
        then have "k \<in> set pre" using kin by simp
        then have t: "truthy (?V s)" and mp: "getProp (hh ! c) k = ?V s"
          using I k by auto
        show ?thesis using t mp False c1 keep [OF t] gs by simp
      qed
    qed
  qed simp_all
  let ?v = "?V (stackOf st')"
  have t: "truthy ?v" and p1: "getProp (h' ! c) k1 = ?v" and p2: "getProp (h' ! c) k2 = ?v"
    using res k1(1) k2(1) by auto
  have e: "extends (?s1, h) (stackOf st', h')" using res by simp
  have fresh: "tracked h (Ref b) \<Longrightarrow> \<exists>d. ?v = Ref d \<and> length h \<le> d \<and> d < length h'"
  proof -
    assume tr: "tracked h (Ref b)"
    then have tv: "truthy (stackGet (stackOf st') (Ref b))" using t by simp
    show ?thesis
    proof (cases "truthy (stackGet ?s1 (Ref b))")
      case True
      then have "b = a" by (cases "b = a") (simp_all add: stackGet_stackSet_other)
      then have "stackGet (stackOf st') (Ref b) = Ref c"
        using extends_stackGet [OF e, of "Ref b"] True by (simp add: stackGet_stackSet)
      then show ?thesis using res tr c(2) by simp
    next
      case False
      from extends_stackGet_fresh [OF e tv False] tr show ?thesis by simp
    qed
  qed
  have "heapGet h' c = Some (h' ! c)" using res by (simp add: heapGet_def)
  moreover have "tracked h (Ref b) \<longrightarrow>
               ?v = stackGet (stackOf st') (Ref b)
             \<and> (\<exists>d. ?v = Ref d \<and> length h \<le> d \<and> d < length h')"
    using fresh by simp
  moreover have "\<not> tracked h (Ref b) \<longrightarrow> ?v = Ref b" by simp
  moreover note run [unfolded r] c(2) p1 p2
  ultimately show ?thesis by blast
qed

theorem deepClone_shared_reference_witness:
  "\<exists>n c st' h' clone d.
      baseClone n (Ref 0) CLONE_DEEP_FLAG None Undefined Undefined None
        [plainObject [(Str ''left'', Ref 1), (Str ''right'', Ref 1)], plainObject [(Str ''x'', Num 1)]]
        = Some (Ref c, st', h')
    \<and> heapGet h' c = Some clone
    \<and> getProp clone (Str ''left'') = Ref d \<and> getProp clone (Str ''right'') = Ref d
    \<and> 2 \<le> d \<and> d < length h' \<and> stackGet (stackOf st') (Ref 1) = Ref d"
proof -
  let ?a = "plainObject [(Str ''left'', Ref 1), (Str ''right'', Ref 1)]"
  let ?b = "plainObject [(Str ''x'', Num 1)]"
  let ?ks = "visitKeys ?a (CLONE_DEEP_FLAG AND CLONE_FLAT_FLAG) (CLONE_DEEP_FLAG AND CLONE_SYMBOLS_FLAG)"
  have 1: "wfHeap [?a, ?b]"
    by (simp add: wfHeap_def backingOK_def childVals_def refOK_def plainObject_def elems_def
        mapEntries_def setMembers_def)
  have 2: "heapGet [?a, ?b] 0 = Some ?a" by (simp add: heapGet_def)
  have 3: "isArray ?a \<or> isFunc ?a \<or> keyLooped ?a"
    by (simp add: keyLooped_def isArray_def isBuffer_def isFunc_def isTypedArray_def
        getTag_def cloneableTags_def tagDefs plainObject_def)
  have 4: "CLONE_DEEP_FLAG AND CLONE_DEEP_FLAG \<noteq> 0" by (simp add: flagDefs)
  have 5: "Str ''left'' \<in> set ?ks" "getProp ?a (Str ''left'') = Ref 1"
    by (simp_all add: visitKeys_def keys_def isStrKey_def isArray_def flagDefs plainObject_def
        getProp_def)
  have 6: "Str ''right'' \<in> set ?ks" "getProp ?a (Str ''right'') = Ref 1"
    by (simp_all add: visitKeys_def keys_def isStrKey_def isArray_def flagDefs plainObject_def
        getProp_def)
  have 7: "heapGet [?a, ?b] 1 = Some ?b" "\<not> isBuffer ?b"
    by (simp_all add: heapGet_def isBuffer_def plainObject_def)
  have t: "tracked [?a, ?b] (Ref 1)"
    by (simp add: tracked_def heapGet_def isBuffer_def isFunc_def plainObject_def getTag_def
        cloneableTags_def tagDefs)
  from deepClone_shared_reference [OF 1 2 3 4 5 6 7] t
  show ?thesis by fastforce
qed

text \<open>
  Not for every \<open>b\<close>: when \<open>b\<close> is a binary buffer (object 1), \<open>left\<close> and
  \<open>right\<close> of the clone are two copies of it (objects 5 and 7), and the registry has
  no entry for \<open>b\<close>.
\<close>

theorem deepClone_shared_buffer_counterexample:
  "deepClone (Suc (Suc 0)) (Ref 0)
       [plainObject [(Str ''left'', Ref 1), (Str ''right'', Ref 1)],
        objectOf (KBuffer 2 0 2) [], objectOf (KArrayBuffer [1, 2, 3]) []]
     = Some (Ref 3, Some [(Ref 0, Ref 3)],
         [plainObject [(Str ''left'', Ref 1), (Str ''right'', Ref 1)],
          objectOf (KBuffer 2 0 2) [], objectOf (KArrayBuffer [1, 2, 3]) [],
          plainObject [(Str ''left'', Ref 5), (Str ''right'', Ref 7)],
          objectOf (KArrayBuffer [1, 2]) [], objectOf (KBuffer 4 0 2) [],
          objectOf (KArrayBuffer [1, 2]) [], objectOf (KBuffer 6 0 2) []])"
  by (simp add: evalDefs)

section \<open>Binary buffers\<close>

lemma initClone_buffer:
  assumes "isBuffer ob"
  shows "initClone value ob isDeep isFlat object h =
           (case cloneBuffer h ob (isDeep \<noteq> 0) of
              None \<Rightarrow> None
            | Some (r, h') \<Rightarrow> Some (Done r h'))"
proof -
  have "\<not> isArray ob" using assms by (auto simp: isArray_def isBuffer_def split: kind.splits)
  then show ?thesis using assms by (simp add: initClone_def)
qed

lemma baseClone_buffer:
  assumes "heapGet h a = Some ob" and "isBuffer ob"
  shows "baseClone (Suc n) (Ref a) bm None key object stack h =
           (case cloneBuffer h ob (bm AND CLONE_DEEP_FLAG \<noteq> 0) of
              None \<Rightarrow> None
            | Some (r, h') \<Rightarrow> Some (r, stack, h'))"
  using assms
  by (auto simp: baseClone_Suc isObject_def initClone_buffer split: option.splits)

lemma cloneBuffer_deep:
  assumes "isBuffer bo" and "cloneBuffer h bo True = Some (r, h')"
  shows "r = Ref (Suc (length h)) \<and> prefix h h' \<and> length h' = Suc (Suc (length h))
           \<and> isBuffer (h' ! Suc (length h))"
  using assms
  by (auto simp: isBuffer_def cloneBuffer_def alloc_def newCtor_def nth_append
      split: kind.splits option.splits)




section \<open>Keyed collections\<close>

lemma map_loop_inv:
  fixes I :: "(val \<times> val) list \<Rightarrow> stack \<Rightarrow> heap \<Rightarrow> bool"
  assumes run: "forEach es
        (\<lambda>(key, subValue). cloneInto (\<lambda>sv key. baseClone n sv bm None key v)
                               (\<lambda>h r. mapSet h (Ref c) key r) subValue key) st1 = Some st2"
    and c: "length (snd st0) \<le> c"
    and base: "extends st0 (stackOf (fst st1), snd st1)" "fst st1 \<noteq> None"
      "c < length (snd st1)" "\<exists>ms. kind (snd st1 ! c) = KMap ms"
    and I0: "I [] (stackOf (fst st1)) (snd st1)"
    and step: "\<And>pre key sv post s h r s' h' ms. es = pre @ (key, sv) # post \<Longrightarrow>
         extends st0 (s, h) \<Longrightarrow> c < length h \<Longrightarrow> kind (h ! c) = KMap ms \<Longrightarrow> I pre s h \<Longrightarrow>
         baseClone n sv bm None key v (Some s) h = Some (r, Some s', h') \<Longrightarrow>
         extends (s, h) (s', h') \<Longrightarrow> h' ! c = h ! c \<Longrightarrow>
         I (pre @ [(key, sv)]) s' (h'[c := (h ! c)\<lparr>kind := KMap (AList.update key r ms)\<rparr>])"
  shows "I es (stackOf (fst st2)) (snd st2) \<and> extends st0 (stackOf (fst st2), snd st2)
           \<and> c < length (snd st2) \<and> (\<exists>ms. kind (snd st2 ! c) = KMap ms) \<and> fst st2 \<noteq> None"
proof -
  let ?J = "\<lambda>pre st. I pre (stackOf (fst st)) (snd st) \<and> extends st0 (stackOf (fst st), snd st)
           \<and> c < length (snd st) \<and> (\<exists>ms. kind (snd st ! c) = KMap ms) \<and> fst st \<noteq> None"
  have "?J es st2"
  proof (rule forEach_inv_seen [where I = ?J, OF run])
    show "?J [] st1" using base I0 by simp
  next
    fix pre x post st st'
    assume es: "es = pre @ x # post" and J: "?J pre st"
      and vp: "(case x of (key, subValue) \<Rightarrow>
                 cloneInto (\<lambda>sv key. baseClone n sv bm None key v)
                   (\<lambda>h r. mapSet h (Ref c) key r) subValue key) st = Some st'"
    obtain key sv where x: "x = (key, sv)" by (cases x)
    from J obtain s ms where s: "fst st = Some s" and ms: "kind (snd st ! c) = KMap ms" by auto
    let ?h = "snd st"
    have e0: "extends st0 (s, ?h)" using J s by simp
    from vp x obtain r h1 where rec: "baseClone n sv bm None key v (Some s) ?h
          = Some (r, fst st', h1)"
      and put: "mapSet h1 (Ref c) key r = Some (snd st')"
      using s by (auto elim: cloneInto_Some)
    from baseClone_extends [OF rec] obtain s' where s': "fst st' = Some s'"
      and e1: "extends (s, ?h) (s', h1)" by auto
    have pre1: "prefix ?h h1" using e1 by (auto dest: extends_prefixD)
    have c1: "c < length h1" using J pre1 prefix_length_le by fastforce
    have same: "h1 ! c = ?h ! c" using pre1 J by (auto intro: prefix_nth_eq)
    have eq: "snd st' = h1[c := (?h ! c)\<lparr>kind := KMap (AList.update key r ms)\<rparr>]"
      using put c1 same ms by (simp add: mapSet_def heapGet_def)
    have "I (pre @ [(key, sv)]) s' (snd st')"
      unfolding eq
      using step [OF es [unfolded x] e0 _ ms _ rec [unfolded s'] e1 same] J s by simp
    moreover have "extends st0 (s', snd st')"
      unfolding eq using extends_update [OF extends_trans [OF e0 e1] c] .
    moreover have "c < length (snd st')" "\<exists>ms. kind (snd st' ! c) = KMap ms"
      using c1 unfolding eq by simp_all
    ultimately show "?J (pre @ [x]) st'" using s' x by simp
  qed
  then show ?thesis by simp
qed

lemma getTag_map: "getTag ob = mapTag \<longleftrightarrow> (\<exists>es. kind ob = KMap es)"
  by (cases "kind ob") (auto simp: getTag_def typedTag_def tagDefs split: tykind.splits)

lemma initClone_map:
  assumes "kind ob = KMap es"
  shows "initClone value ob isDeep isFlat object h
           = Some (Populate (Ref (length h)) (h @ [newCtor ob (KMap [])]))"
  using assms
  by (simp add: initClone_def isArray_def isBuffer_def isFunc_def getTag_def tagDefs
      cloneableTags_def initCloneByTag_def alloc_def)

text \<open>The clone of a \<open>Map\<close> that is not in the registry is its loop over the entries.\<close>

lemma baseClone_map:
  assumes run: "baseClone n (Ref a) bm None k p st h = Some (r, st', h')"
    and ob: "heapGet h a = Some ob"
    and kind: "kind ob = KMap es"
    and new: "\<not> truthy (stackGet (stackOf st) (Ref a))"
  shows "\<exists>m. n = Suc m \<and> r = Ref (length h) \<and>
           forEach es
             (\<lambda>(key, subValue). cloneInto (\<lambda>sv key. baseClone m sv bm None key (Ref a))
                               (\<lambda>hh r. mapSet hh (Ref (length h)) key r) subValue key)
             (Some (stackSet (stackOf st) (Ref a) (Ref (length h))), h @ [newCtor ob (KMap [])])
           = Some (st', h')"
proof -
  obtain m where n: "n = Suc m" using run by (cases n) auto
  have t: "getTag ob = mapTag" using kind getTag_map by blast
  have me: "mapEntries ob = es" using kind by (simp add: mapEntries_def)
  show ?thesis
    using run [unfolded n] ob initClone_map [OF kind] new
    by (auto simp: baseClone_Suc isObject_def n populate_map [OF t] me split: option.splits)
qed

lemma update_new_key: "k \<notin> fst ` set al \<Longrightarrow> AList.update k v al = al @ [(k, v)]"
  by (induction al) auto

lemma baseClone_primitive:
  assumes "baseClone n v bm None k p st h = Some (r, st', h')" and "\<not> isObject v"
  shows "r = v \<and> st' = st \<and> h' = h"
proof -
  obtain m where n: "n = Suc m" using assms(1) by (cases n) auto
  show ?thesis using assms unfolding n by (simp add: baseClone_Suc)
qed

text \<open>
  What a call under a parent returns for each kind of value, and the clone of a
  \<open>Map\<close> entry by entry, under any flags.
\<close>

lemma cloneBuffer_fresh:
  assumes "isBuffer bo" and "cloneBuffer h bo d = Some (r, h')"
  shows "\<exists>x. r = Ref x \<and> length h \<le> x \<and> x < length h' \<and> prefix h h' \<and> isBuffer (h' ! x)"
proof (cases d)
  case True
  then have "cloneBuffer h bo True = Some (r, h')" using assms(2) by simp
  from cloneBuffer_deep [OF assms(1) this] show ?thesis
    by (intro exI [of _ "Suc (length h)"]) simp
next
  case False
  from assms(1) obtain b off len where k: "kind bo = KBuffer b off len"
    by (cases "kind bo") (simp_all add: isBuffer_def)
  have "r = Ref (length h)" "h' = h @ [newCtor bo (KBuffer b off len)]"
    using assms(2) k False by (simp_all add: cloneBuffer_def alloc_def)
  then show ?thesis
    by (intro exI [of _ "length h"]) (simp add: isBuffer_def newCtor_def)
qed

lemma baseClone_buffer_fresh:
  assumes "baseClone n (Ref b) bm None k p st h = Some (r, st', h')"
    and "heapGet h b = Some bo" and "isBuffer bo"
  shows "st' = st \<and> (\<exists>d. r = Ref d \<and> length h \<le> d \<and> d < length h' \<and> isBuffer (h' ! d))"
proof -
  obtain m where n: "n = Suc m" using assms(1) by (cases n) auto
  from assms(1) [unfolded n baseClone_buffer [OF assms(2,3)]]
  have cb: "cloneBuffer h bo (bm AND CLONE_DEEP_FLAG \<noteq> 0) = Some (r, h')" and st: "st' = st"
    by (auto split: option.splits)
  from cloneBuffer_fresh [OF assms(3) cb] st show ?thesis by blast
qed

lemma child_cases:
  assumes "refOK (length h) v"
  shows "\<not> isObject v \<or> tracked h v \<or> opaque h v \<or> bufferRef h v"
  using assms
  by (cases v) (auto simp: refOK_def isObject_def tracked_def opaque_def bufferRef_def heapGet_def)

lemma opaque_kept:
  assumes rec: "baseClone n v bm None k p st hh = Some (r, st', h')"
    and op: "opaque h v" and pre: "prefix h hh" and p: "truthy p"
  shows "r = v \<and> st' = st \<and> h' = hh"
proof -
  from op obtain b bo where v: "v = Ref b" and bo: "heapGet h b = Some bo"
    and k: "isFunc bo \<or> cloneableTags (getTag bo) \<noteq> Some True"
    by (auto simp: opaque_def split: val.splits option.splits)
  have cur: "heapGet hh b = Some bo" using bo pre by (rule_tac heapGet_prefix)
  from baseClone_kept [OF rec [unfolded v] cur k p] v show ?thesis by simp
qed

lemma buffer_copied:
  assumes rec: "baseClone n v bm None k p st hh = Some (r, st', h')"
    and bf: "bufferRef h v" and pre: "prefix h hh"
  shows "\<exists>d. r = Ref d \<and> length hh \<le> d \<and> d < length h' \<and> isBuffer (h' ! d)"
proof -
  from bf obtain b bo where v: "v = Ref b" and bo: "heapGet h b = Some bo" and k: "isBuffer bo"
    by (auto simp: bufferRef_def split: val.splits option.splits)
  have cur: "heapGet hh b = Some bo" using bo pre by (rule_tac heapGet_prefix)
  from baseClone_buffer_fresh [OF rec [unfolded v] cur k] show ?thesis by blast
qed

lemma map_entries_run:
  assumes run: "baseClone n (Ref a) bm None Undefined Undefined None h = Some (r, st', h')"
    and wf: "wfHeap h" and ob: "heapGet h a = Some ob"
    and kind: "kind ob = KMap es" and dk: "distinct (map fst es)"
  shows "\<exists>rs. r = Ref (length h) \<and> length h < length h'
         \<and> length rs = length es \<and> mapEntries (h' ! length h) = zip (map fst es) rs
         \<and> (\<forall>i < length es.
               (\<not> isObject (snd (es ! i)) \<longrightarrow> rs ! i = snd (es ! i))
             \<and> (opaque h (snd (es ! i)) \<longrightarrow> rs ! i = snd (es ! i))
             \<and> (bufferRef h (snd (es ! i)) \<longrightarrow>
                  (\<exists>d. rs ! i = Ref d \<and> length h \<le> d \<and> d < length h' \<and> isBuffer (h' ! d)))
             \<and> (bm AND CLONE_DEEP_FLAG \<noteq> 0 \<longrightarrow> tracked h (snd (es ! i)) \<longrightarrow>
                  rs ! i = stackGet (stackOf st') (snd (es ! i))
                \<and> (\<exists>d. rs ! i = Ref d \<and> length h \<le> d \<and> d < length h')))"
proof -
  let ?c = "length h"
  let ?s1 = "stackSet [] (Ref a) (Ref ?c)"
  from baseClone_map [OF run ob kind] obtain m where n: "n = Suc m"
    and r: "r = Ref ?c"
    and loop: "forEach es
             (\<lambda>(key, subValue). cloneInto (\<lambda>sv key. baseClone m sv bm None key (Ref a))
                               (\<lambda>hh r. mapSet hh (Ref ?c) key r) subValue key)
             (Some ?s1, h @ [newCtor ob (KMap [])]) = Some (st', h')"
    by auto
  let ?V = "\<lambda>(s::stack) (hh::heap) v w.
                  (\<not> isObject v \<longrightarrow> w = v)
                \<and> (opaque h v \<longrightarrow> w = v)
                \<and> (bufferRef h v \<longrightarrow> (\<exists>d. w = Ref d \<and> ?c < d \<and> d < length hh \<and> isBuffer (hh ! d)))
                \<and> (bm AND CLONE_DEEP_FLAG \<noteq> 0 \<longrightarrow> tracked h v \<longrightarrow> w = stackGet s v \<and> truthy w)"
  let ?I = "\<lambda>pre (s::stack) (hh::heap).
      \<exists>rs. length rs = length pre \<and> mapEntries (hh ! ?c) = zip (map fst pre) rs
         \<and> (\<forall>i < length pre. ?V s hh (snd (pre ! i)) (rs ! i))"
  have res: "?I es (stackOf (fst (st', h'))) (snd (st', h'))
           \<and> extends (?s1, h) (stackOf (fst (st', h')), snd (st', h'))
           \<and> ?c < length (snd (st', h')) \<and> (\<exists>ms. kind (snd (st', h') ! ?c) = KMap ms)
           \<and> fst (st', h') \<noteq> None"
  proof (rule map_loop_inv [where I = ?I and ?st0.0 = "(?s1, h)", OF loop])
    show "extends (?s1, h) (stackOf (fst (Some ?s1, h @ [newCtor ob (KMap [])])),
            snd (Some ?s1, h @ [newCtor ob (KMap [])]))"
      by (simp add: extends_prefix)
    show "\<exists>ms. kind (snd (Some ?s1, h @ [newCtor ob (KMap [])]) ! ?c) = KMap ms"
      by (simp add: newCtor_def)
    show "?I [] (stackOf (fst (Some ?s1, h @ [newCtor ob (KMap [])])))
            (snd (Some ?s1, h @ [newCtor ob (KMap [])]))"
      by (simp add: newCtor_def mapEntries_def)
  next
    fix pre key sv post s hh r s' h1 ms
    assume es: "es = pre @ (key, sv) # post"
      and e0: "extends (?s1, h) (s, hh)" and c: "?c < length hh"
      and ms: "kind (hh ! ?c) = KMap ms" and I: "?I pre s hh"
      and rec: "baseClone m sv bm None key (Ref a) (Some s) hh = Some (r, Some s', h1)"
      and e1: "extends (s, hh) (s', h1)"
    let ?h2 = "h1[?c := (hh ! ?c)\<lparr>kind := KMap (AList.update key r ms)\<rparr>]"
    have pre1: "prefix hh h1" using extends_prefixD [OF e1] by simp
    have len1: "length hh \<le> length h1" using pre1 by (rule prefix_length_le)
    have c1: "?c < length h1" using c len1 by simp
    have pre0: "prefix h hh" using extends_prefixD [OF e0] by simp
    from I obtain rs where rs: "length rs = length pre" "mapEntries (hh ! ?c) = zip (map fst pre) rs"
      "\<forall>i < length pre. ?V s hh (snd (pre ! i)) (rs ! i)" by blast
    have msz: "ms = zip (map fst pre) rs" using rs(2) ms by (simp add: mapEntries_def)
    have "key \<notin> fst ` set pre" using dk es by auto
    then have "key \<notin> fst ` set ms" unfolding msz by (auto dest!: set_zip_leftD)
    then have upd: "AList.update key r ms = zip (map fst (pre @ [(key, sv)])) (rs @ [r])"
      using rs(1) by (simp add: update_new_key msz)
    have keep: "\<And>d. ?c < d \<Longrightarrow> d < length hh \<Longrightarrow> ?h2 ! d = hh ! d"
      using pre1 by (simp add: prefix_nth_eq)
    have new: "?V s' ?h2 sv r"
    proof (intro conjI impI)
      assume "\<not> isObject sv"
      then show "r = sv" using baseClone_primitive [OF rec] by simp
    next
      assume "opaque h sv"
      from opaque_kept [OF rec this pre0] show "r = sv" by simp
    next
      assume "bufferRef h sv"
      from buffer_copied [OF rec this pre0] obtain d where
        d: "r = Ref d" "length hh \<le> d" "d < length h1" "isBuffer (h1 ! d)" by blast
      then show "\<exists>d. r = Ref d \<and> ?c < d \<and> d < length ?h2 \<and> isBuffer (?h2 ! d)"
        using c by (intro exI [of _ d]) simp
    next
      assume "bm AND CLONE_DEEP_FLAG \<noteq> 0" and "tracked h sv"
      from baseClone_tracked [OF rec this(1) wf pre0 this(2)]
      show "r = stackGet s' sv" "truthy r" by simp_all
    qed
    have old: "\<And>i. i < length pre \<Longrightarrow> ?V s' ?h2 (snd (pre ! i)) (rs ! i)"
    proof -
      fix i assume "i < length pre"
      then have V: "?V s hh (snd (pre ! i)) (rs ! i)" using rs(3) by blast
      show "?V s' ?h2 (snd (pre ! i)) (rs ! i)"
      proof (intro conjI impI)
        assume "\<not> isObject (snd (pre ! i))"
        then show "rs ! i = snd (pre ! i)" using V by blast
      next
        assume "opaque h (snd (pre ! i))"
        then show "rs ! i = snd (pre ! i)" using V by blast
      next
        assume "bufferRef h (snd (pre ! i))"
        then obtain d where d: "rs ! i = Ref d" "?c < d" "d < length hh" "isBuffer (hh ! d)"
          using V by blast
        then show "\<exists>d. rs ! i = Ref d \<and> ?c < d \<and> d < length ?h2 \<and> isBuffer (?h2 ! d)"
          using keep [OF d(2,3)] len1 by (intro exI [of _ d]) simp
      next
        assume dp: "bm AND CLONE_DEEP_FLAG \<noteq> 0" and t: "tracked h (snd (pre ! i))"
        then have "rs ! i = stackGet s (snd (pre ! i))" "truthy (rs ! i)" using V by auto
        then show "rs ! i = stackGet s' (snd (pre ! i))" "truthy (rs ! i)"
          using extends_stackGet [OF e1, of "snd (pre ! i)"] by auto
      qed
    qed
    have "\<forall>i < length (pre @ [(key, sv)]).
            ?V s' ?h2 (snd ((pre @ [(key, sv)]) ! i)) ((rs @ [r]) ! i)"
    proof (intro allI impI)
      fix i assume "i < length (pre @ [(key, sv)])"
      then consider "i < length pre" | "i = length pre" by fastforce
      then show "?V s' ?h2 (snd ((pre @ [(key, sv)]) ! i)) ((rs @ [r]) ! i)"
      proof cases
        case 1
        then have "(pre @ [(key, sv)]) ! i = pre ! i" "(rs @ [r]) ! i = rs ! i"
          using rs(1) by (simp_all add: nth_append)
        then show ?thesis using old [OF 1] by metis
      next
        case 2
        then have "(pre @ [(key, sv)]) ! i = (key, sv)" "(rs @ [r]) ! i = r"
          using rs(1) by (simp_all add: nth_append)
        then show ?thesis using new by (metis snd_conv)
      qed
    qed
    moreover have "mapEntries (?h2 ! ?c) = zip (map fst (pre @ [(key, sv)])) (rs @ [r])"
      using c1 upd by (simp add: mapEntries_def)
    moreover have "length (rs @ [r]) = length (pre @ [(key, sv)])" using rs(1) by simp
    ultimately show "?I (pre @ [(key, sv)]) s' ?h2" by blast
  qed simp_all
  then obtain rs where rs: "length rs = length es" "mapEntries (h' ! ?c) = zip (map fst es) rs"
    "\<forall>i < length es. ?V (stackOf st') h' (snd (es ! i)) (rs ! i)" by auto
  have e: "extends (?s1, h) (stackOf st', h')" using res by simp
  have fresh: "\<And>v. truthy (stackGet (stackOf st') v) \<Longrightarrow>
                 \<exists>d. stackGet (stackOf st') v = Ref d \<and> length h \<le> d \<and> d < length h'"
  proof -
    fix v assume t: "truthy (stackGet (stackOf st') v)"
    show "\<exists>d. stackGet (stackOf st') v = Ref d \<and> length h \<le> d \<and> d < length h'"
    proof (cases "truthy (stackGet ?s1 v)")
      case True
      then have "v = Ref a" by (cases "v = Ref a") (simp_all add: stackGet_stackSet_other)
      then have "stackGet (stackOf st') v = Ref ?c"
        using extends_stackGet [OF e, of v] True by (simp add: stackGet_stackSet)
      then show ?thesis using res by simp
    next
      case False
      from extends_stackGet_fresh [OF e t False] show ?thesis .
    qed
  qed
  have "\<forall>i < length es.
               (\<not> isObject (snd (es ! i)) \<longrightarrow> rs ! i = snd (es ! i))
             \<and> (opaque h (snd (es ! i)) \<longrightarrow> rs ! i = snd (es ! i))
             \<and> (bufferRef h (snd (es ! i)) \<longrightarrow>
                  (\<exists>d. rs ! i = Ref d \<and> length h \<le> d \<and> d < length h' \<and> isBuffer (h' ! d)))
             \<and> (bm AND CLONE_DEEP_FLAG \<noteq> 0 \<longrightarrow> tracked h (snd (es ! i)) \<longrightarrow>
                  rs ! i = stackGet (stackOf st') (snd (es ! i))
                \<and> (\<exists>d. rs ! i = Ref d \<and> length h \<le> d \<and> d < length h'))"
  proof (intro allI impI conjI)
    fix i assume i: "i < length es"
    then have V: "?V (stackOf st') h' (snd (es ! i)) (rs ! i)" using rs(3) by blast
    {
      assume "\<not> isObject (snd (es ! i))"
      then show "rs ! i = snd (es ! i)" using V by blast
    }
    {
      assume "opaque h (snd (es ! i))"
      then show "rs ! i = snd (es ! i)" using V by blast
    }
    {
      assume "bufferRef h (snd (es ! i))"
      then obtain d where "rs ! i = Ref d" "?c < d" "d < length h'" "isBuffer (h' ! d)"
        using V by blast
      then show "\<exists>d. rs ! i = Ref d \<and> length h \<le> d \<and> d < length h' \<and> isBuffer (h' ! d)"
        by (intro exI [of _ d]) simp
    }
    {
      assume dp: "bm AND CLONE_DEEP_FLAG \<noteq> 0" and t: "tracked h (snd (es ! i))"
      then have w: "rs ! i = stackGet (stackOf st') (snd (es ! i))" "truthy (rs ! i)"
        using V by auto
      then show "rs ! i = stackGet (stackOf st') (snd (es ! i))" by simp
      from fresh [of "snd (es ! i)"] w
      show "\<exists>d. rs ! i = Ref d \<and> length h \<le> d \<and> d < length h'" by simp
    }
  qed
  moreover have "?c < length h'" using res by simp
  moreover note r rs(1,2)
  ultimately show ?thesis by blast
qed


text \<open>
  C6. Let a \<open>Map\<close> of a well-formed heap have the entries \<open>es\<close>, with distinct
  keys as a \<open>Map\<close> has. Its deep clone without customizer returns a new \<open>Map\<close>
  whose entries have the keys of \<open>es\<close>, the keys themselves and in the same order,
  each with the clone of its value. Every value is of one of four kinds, and its clone
  is: the value itself when it is a primitive; the clone the registry has for it, a new
  object, when it refers to a cloneable object that is no buffer and no callable; the
  value itself when it refers to a callable or to an object that is not cloneable, which
  line 237 returns under a parent; a new binary buffer when it refers to a binary
  buffer.
\<close>

theorem deepClone_map:
  assumes wf: "wfHeap h" and ob: "heapGet h a = Some ob"
    and kind: "kind ob = KMap es" and dk: "distinct (map fst es)"
    and deep: "bm AND CLONE_DEEP_FLAG \<noteq> 0"
  shows "\<exists>n c st' h' clone rs.
           baseClone n (Ref a) bm None Undefined Undefined None h = Some (Ref c, st', h')
         \<and> length h \<le> c \<and> heapGet h' c = Some clone
         \<and> length rs = length es \<and> mapEntries clone = zip (map fst es) rs
         \<and> (\<forall>i < length es.
               (\<not> isObject (snd (es ! i)) \<or> tracked h (snd (es ! i))
                  \<or> opaque h (snd (es ! i)) \<or> bufferRef h (snd (es ! i)))
             \<and> (\<not> isObject (snd (es ! i)) \<longrightarrow> rs ! i = snd (es ! i))
             \<and> (tracked h (snd (es ! i)) \<longrightarrow>
                  rs ! i = stackGet (stackOf st') (snd (es ! i))
                \<and> (\<exists>d. rs ! i = Ref d \<and> length h \<le> d \<and> d < length h'))
             \<and> (opaque h (snd (es ! i)) \<longrightarrow> rs ! i = snd (es ! i))
             \<and> (bufferRef h (snd (es ! i)) \<longrightarrow>
                  (\<exists>d. rs ! i = Ref d \<and> length h \<le> d \<and> d < length h' \<and> isBuffer (h' ! d))))"
proof -
  have aN: "a < length h" and ob_eq: "h ! a = ob" using ob by (simp_all add: heapGet_Some)
  from baseClone_terminates [OF wf prefix_order.refl, of "Ref a" bm Undefined Undefined None] aN
  obtain n r st' h' where run: "baseClone n (Ref a) bm None Undefined Undefined None h
      = Some (r, st', h')"
    by (auto simp: refOK_def)
  from map_entries_run [OF run wf ob kind dk] deep obtain rs where
    r: "r = Ref (length h)" and len: "length h < length h'"
    and rs: "length rs = length es" "mapEntries (h' ! length h) = zip (map fst es) rs"
    and vs: "\<forall>i < length es.
               (\<not> isObject (snd (es ! i)) \<longrightarrow> rs ! i = snd (es ! i))
             \<and> (opaque h (snd (es ! i)) \<longrightarrow> rs ! i = snd (es ! i))
             \<and> (bufferRef h (snd (es ! i)) \<longrightarrow>
                  (\<exists>d. rs ! i = Ref d \<and> length h \<le> d \<and> d < length h' \<and> isBuffer (h' ! d)))
             \<and> (tracked h (snd (es ! i)) \<longrightarrow>
                  rs ! i = stackGet (stackOf st') (snd (es ! i))
                \<and> (\<exists>d. rs ! i = Ref d \<and> length h \<le> d \<and> d < length h'))"
    by auto
  have cases: "\<forall>i < length es. \<not> isObject (snd (es ! i)) \<or> tracked h (snd (es ! i))
                  \<or> opaque h (snd (es ! i)) \<or> bufferRef h (snd (es ! i))"
  proof (intro allI impI)
    fix i assume "i < length es"
    then have "snd (es ! i) \<in> set (childVals ob)"
      using kind by (auto simp: childVals_def mapEntries_def)
    then have "refOK (length h) (snd (es ! i))"
      using wfHeap_nth(2) [OF wf aN] ob_eq by simp
    then show "\<not> isObject (snd (es ! i)) \<or> tracked h (snd (es ! i))
                  \<or> opaque h (snd (es ! i)) \<or> bufferRef h (snd (es ! i))"
      by (rule child_cases)
  qed
  have "heapGet h' (length h) = Some (h' ! length h)" using len by (simp add: heapGet_def)
  moreover have "\<forall>i < length es.
               (\<not> isObject (snd (es ! i)) \<or> tracked h (snd (es ! i))
                  \<or> opaque h (snd (es ! i)) \<or> bufferRef h (snd (es ! i)))
             \<and> (\<not> isObject (snd (es ! i)) \<longrightarrow> rs ! i = snd (es ! i))
             \<and> (tracked h (snd (es ! i)) \<longrightarrow>
                  rs ! i = stackGet (stackOf st') (snd (es ! i))
                \<and> (\<exists>d. rs ! i = Ref d \<and> length h \<le> d \<and> d < length h'))
             \<and> (opaque h (snd (es ! i)) \<longrightarrow> rs ! i = snd (es ! i))
             \<and> (bufferRef h (snd (es ! i)) \<longrightarrow>
                  (\<exists>d. rs ! i = Ref d \<and> length h \<le> d \<and> d < length h' \<and> isBuffer (h' ! d)))"
    using vs cases by blast
  moreover note run [unfolded r] rs
  ultimately show ?thesis by blast
qed

theorem deepClone_map_witness:
  "\<exists>n c st' h' clone rs.
      baseClone n (Ref 0) CLONE_DEEP_FLAG None Undefined Undefined None
        [objectOf (KMap [(Str ''k1'', Ref 1), (Ref 1, Num 2), (Str ''k3'', Str ''v''),
                         (Str ''k4'', Ref 2)]) [],
         plainObject [(Str ''x'', Num 1)], objectOf KError []] = Some (Ref c, st', h')
    \<and> heapGet h' c = Some clone
    \<and> mapEntries clone = zip [Str ''k1'', Ref 1, Str ''k3'', Str ''k4''] rs \<and> length rs = 4
    \<and> rs ! 0 = stackGet (stackOf st') (Ref 1) \<and> (\<exists>d. rs ! 0 = Ref d \<and> 3 \<le> d)
    \<and> rs ! 1 = Num 2 \<and> rs ! 2 = Str ''v'' \<and> rs ! 3 = Ref 2"
proof -
  let ?es = "[(Str ''k1'', Ref 1), (Ref 1, Num 2), (Str ''k3'', Str ''v''), (Str ''k4'', Ref 2)]"
  let ?m = "objectOf (KMap ?es) []"
  let ?b = "plainObject [(Str ''x'', Num 1)]"
  let ?e = "objectOf KError []"
  let ?h = "[?m, ?b, ?e]"
  have 1: "wfHeap ?h"
    by (simp add: wfHeap_def backingOK_def childVals_def refOK_def plainObject_def objectOf_def
        elems_def mapEntries_def setMembers_def)
  have 2: "heapGet ?h 0 = Some ?m" by (simp add: heapGet_def)
  have 3: "kind ?m = KMap ?es" by (simp add: objectOf_def)
  have 4: "distinct (map fst ?es)" by simp
  have 5: "CLONE_DEEP_FLAG AND CLONE_DEEP_FLAG \<noteq> 0" by (simp add: flagDefs)
  have t: "tracked ?h (Ref 1)"
    by (simp add: tracked_def heapGet_def isBuffer_def isFunc_def plainObject_def getTag_def
        cloneableTags_def tagDefs)
  have o: "opaque ?h (Ref 2)"
    by (simp add: opaque_def heapGet_def isFunc_def objectOf_def getTag_def
        cloneableTags_def tagDefs)
  let ?P = "\<lambda>st' h' rs i.
               (\<not> isObject (snd (?es ! i)) \<longrightarrow> rs ! i = snd (?es ! i))
             \<and> (tracked ?h (snd (?es ! i)) \<longrightarrow>
                  rs ! i = stackGet (stackOf st') (snd (?es ! i))
                \<and> (\<exists>d. rs ! i = Ref d \<and> length ?h \<le> d \<and> d < length h'))
             \<and> (opaque ?h (snd (?es ! i)) \<longrightarrow> rs ! i = snd (?es ! i))"
  from deepClone_map [OF 1 2 3 4 5] obtain n c st' h' clone rs where
    run: "baseClone n (Ref 0) CLONE_DEEP_FLAG None Undefined Undefined None ?h
            = Some (Ref c, st', h')"
    and cl: "heapGet h' c = Some clone" "length rs = length ?es"
      "mapEntries clone = zip (map fst ?es) rs"
    and vs: "\<forall>i < length ?es. ?P st' h' rs i"
    by blast
  have e0: "snd (?es ! 0) = Ref 1" and e1: "snd (?es ! 1) = Num 2"
    and e2: "snd (?es ! 2) = Str ''v''" and e3: "snd (?es ! 3) = Ref 2" by simp_all
  have "(0::nat) < length ?es" by simp
  with vs have "?P st' h' rs 0" by blast
  then have "rs ! 0 = stackGet (stackOf st') (Ref 1)
      \<and> (\<exists>d. rs ! 0 = Ref d \<and> length ?h \<le> d \<and> d < length h')"
    unfolding e0 using t by blast
  then obtain d where v0: "rs ! 0 = stackGet (stackOf st') (Ref 1)" and d: "rs ! 0 = Ref d"
    and "length ?h \<le> d" by blast
  then have "3 \<le> d" by simp
  with d have v0': "\<exists>d. rs ! 0 = Ref d \<and> 3 \<le> d" by blast
  have "(1::nat) < length ?es" by simp
  with vs have "?P st' h' rs 1" by blast
  then have v1: "rs ! 1 = Num 2" unfolding e1 by (simp add: isObject_def)
  have "(2::nat) < length ?es" by simp
  with vs have "?P st' h' rs 2" by blast
  then have v2: "rs ! 2 = Str ''v''" unfolding e2 by (simp add: isObject_def)
  have "(3::nat) < length ?es" by simp
  with vs have "?P st' h' rs 3" by blast
  then have v3: "rs ! 3 = Ref 2" unfolding e3 using o by blast
  have "mapEntries clone = zip [Str ''k1'', Ref 1, Str ''k3'', Str ''k4''] rs \<and> length rs = 4"
    using cl by simp
  with run cl(1) v0 v0' v1 v2 v3 show ?thesis by blast
qed


section \<open>Shallow clones of collections\<close>



lemma set_loop_inv:
  fixes I :: "val list \<Rightarrow> stack \<Rightarrow> heap \<Rightarrow> bool"
  assumes run: "forEach vs
        (\<lambda>subValue. cloneInto (\<lambda>sv key. baseClone n sv bm None key v)
                               (\<lambda>h r. setAdd h (Ref c) r) subValue subValue) st1 = Some st2"
    and c: "length (snd st0) \<le> c"
    and base: "extends st0 (stackOf (fst st1), snd st1)" "fst st1 \<noteq> None"
      "c < length (snd st1)" "\<exists>ms. kind (snd st1 ! c) = KSet ms"
    and I0: "I [] (stackOf (fst st1)) (snd st1)"
    and step: "\<And>pre sv post s h r s' h' ms. vs = pre @ sv # post \<Longrightarrow>
         extends st0 (s, h) \<Longrightarrow> c < length h \<Longrightarrow> kind (h ! c) = KSet ms \<Longrightarrow> I pre s h \<Longrightarrow>
         baseClone n sv bm None sv v (Some s) h = Some (r, Some s', h') \<Longrightarrow>
         extends (s, h) (s', h') \<Longrightarrow> h' ! c = h ! c \<Longrightarrow>
         I (pre @ [sv]) s'
           (h'[c := (h ! c)\<lparr>kind := KSet (if r \<in> set ms then ms else ms @ [r])\<rparr>])"
  shows "I vs (stackOf (fst st2)) (snd st2) \<and> extends st0 (stackOf (fst st2), snd st2)
           \<and> c < length (snd st2) \<and> (\<exists>ms. kind (snd st2 ! c) = KSet ms) \<and> fst st2 \<noteq> None"
proof -
  let ?J = "\<lambda>pre st. I pre (stackOf (fst st)) (snd st) \<and> extends st0 (stackOf (fst st), snd st)
           \<and> c < length (snd st) \<and> (\<exists>ms. kind (snd st ! c) = KSet ms) \<and> fst st \<noteq> None"
  have "?J vs st2"
  proof (rule forEach_inv_seen [where I = ?J, OF run])
    show "?J [] st1" using base I0 by simp
  next
    fix pre sv post st st'
    assume vs: "vs = pre @ sv # post" and J: "?J pre st"
      and vp: "cloneInto (\<lambda>sv key. baseClone n sv bm None key v)
                   (\<lambda>h r. setAdd h (Ref c) r) sv sv st = Some st'"
    from J obtain s ms where s: "fst st = Some s" and ms: "kind (snd st ! c) = KSet ms" by auto
    let ?h = "snd st"
    have e0: "extends st0 (s, ?h)" using J s by simp
    from vp obtain r h1 where rec: "baseClone n sv bm None sv v (Some s) ?h
          = Some (r, fst st', h1)"
      and put: "setAdd h1 (Ref c) r = Some (snd st')"
      using s by (auto elim: cloneInto_Some)
    from baseClone_extends [OF rec] obtain s' where s': "fst st' = Some s'"
      and e1: "extends (s, ?h) (s', h1)" by auto
    have pre1: "prefix ?h h1" using e1 by (auto dest: extends_prefixD)
    have c1: "c < length h1" using J pre1 prefix_length_le by fastforce
    have same: "h1 ! c = ?h ! c" using pre1 J by (auto intro: prefix_nth_eq)
    have eq: "snd st' = h1[c := (?h ! c)\<lparr>kind := KSet (if r \<in> set ms then ms else ms @ [r])\<rparr>]"
      using put c1 same ms by (simp add: setAdd_def heapGet_def)
    have "I (pre @ [sv]) s' (snd st')"
      unfolding eq
      using step [OF vs e0 _ ms _ rec [unfolded s'] e1 same] J s by simp
    moreover have "extends st0 (s', snd st')"
      unfolding eq using extends_update [OF extends_trans [OF e0 e1] c] .
    moreover have "c < length (snd st')" "\<exists>ms. kind (snd st' ! c) = KSet ms"
      using c1 unfolding eq by simp_all
    ultimately show "?J (pre @ [sv]) st'" using s' by simp
  qed
  then show ?thesis by simp
qed

lemma getTag_set: "getTag ob = setTag \<longleftrightarrow> (\<exists>vs. kind ob = KSet vs)"
  by (cases "kind ob") (auto simp: getTag_def typedTag_def tagDefs split: tykind.splits)

lemma initClone_set:
  assumes "kind ob = KSet vs"
  shows "initClone value ob isDeep isFlat object h
           = Some (Populate (Ref (length h)) (h @ [newCtor ob (KSet [])]))"
  using assms
  by (simp add: initClone_def isArray_def isBuffer_def isFunc_def getTag_def tagDefs
      cloneableTags_def initCloneByTag_def alloc_def)

lemma baseClone_set:
  assumes run: "baseClone n (Ref a) bm None k p st h = Some (r, st', h')"
    and ob: "heapGet h a = Some ob"
    and kind: "kind ob = KSet vs"
    and new: "\<not> truthy (stackGet (stackOf st) (Ref a))"
  shows "\<exists>m. n = Suc m \<and> r = Ref (length h) \<and>
           forEach vs
             (\<lambda>subValue. cloneInto (\<lambda>sv key. baseClone m sv bm None key (Ref a))
                               (\<lambda>hh r. setAdd hh (Ref (length h)) r) subValue subValue)
             (Some (stackSet (stackOf st) (Ref a) (Ref (length h))), h @ [newCtor ob (KSet [])])
           = Some (st', h')"
proof -
  obtain m where n: "n = Suc m" using run by (cases n) auto
  have t: "getTag ob = setTag" using kind getTag_set by blast
  have me: "setMembers ob = vs" using kind by (simp add: setMembers_def)
  show ?thesis
    using run [unfolded n] ob initClone_set [OF kind] new
    by (auto simp: baseClone_Suc isObject_def n populate_set [OF t] me split: option.splits)
qed







section \<open>The opaque fallback\<close>

text \<open>
  What a clone keeps by reference under the keys of its parent, in a \<open>Set\<close> and
  in a \<open>Map\<close>, under any flags.
\<close>

lemma initClone_wrapper_populates:
  assumes kl: "keyLooped ob" and np: "getTag ob \<noteq> objectTag" "getTag ob \<noteq> argsTag"
    and bk: "backingOK h ob"
  shows "\<exists>res h1. initClone v ob isDeep isFlat p h = Some (Populate res h1)"
proof -
  have "\<not> isBuffer ob" using kl by (simp add: keyLooped_def)
  then have "\<And>d. \<exists>y. initCloneByTag h ob (getTag ob) d = Some y"
    using initCloneByTag_progress [OF bk] by auto
  from this [of True] this [of False] this [of "isDeep \<noteq> 0"] show ?thesis
    using kl np by (auto simp: initClone_def Let_def keyLooped_def)
qed

lemma getProp_shallow_visited:
  assumes ps: "plainStructure ob object" and k: "k \<in> set (visitKeys ob isFlat isFull)"
  shows "getProp (if isFlat \<noteq> 0
                  then copySymbolsIn ob (copyObject ob (keysIn ob) emptyObject)
                  else copySymbols ob (objectAssign
                         (if isFunc ob then emptyObject else initCloneObject ob) ob)) k
           = getProp ob k"
proof (cases "isFlat \<noteq> 0")
  case True
  let ?t = "copyObject ob (keysIn ob) emptyObject"
  have e: "\<not> isArray emptyObject" by (simp add: isArray_def emptyObject_def)
  have na: "\<not> isArray ?t" using copyObject_facts [OF e] by blast
  have nob: "\<not> isArray ob" using plainStructure_not(1) [OF ps] .
  from k True nob have kk: "k \<in> set (keysIn ob) \<or> k \<in> set (getSymbolsIn ob)"
    by (auto simp: visitKeys_def getAllKeysIn_def split: if_splits)
  have "getProp (copySymbolsIn ob ?t) k = getProp ob k"
  proof (cases "k \<in> set (getSymbolsIn ob)")
    case True
    then show ?thesis unfolding copySymbolsIn_def by (rule getProp_copyObject [OF na])
  next
    case False
    then have "k \<in> set (keysIn ob)" using kk by simp
    then have a: "map_of (props ?t) k = Some (getProp ob k)"
      using copyObject_facts [OF e, of ob "keysIn ob"] by simp
    show ?thesis
      using copyObject_facts [OF na, of ob "getSymbolsIn ob"] a False
      by (simp add: copySymbolsIn_def getProp_plain)
  qed
  then show ?thesis using True by simp
next
  case False
  let ?t = "if isFunc ob then emptyObject else initCloneObject ob"
  have nob: "\<not> isArray ob" using plainStructure_not(1) [OF ps] .
  from k False nob have "k \<in> fst ` set (props ob)"
    by (auto simp: visitKeys_def getAllKeys_def keys_def getSymbols_def split: if_splits)
  moreover have "\<not> isArray ?t" "props ?t = []"
    by (auto simp: isArray_def emptyObject_def initCloneObject_def newCtor_def)
  ultimately have "getProp (copySymbols ob (objectAssign ?t ob)) k = getProp ob k"
    using nob by (intro getProp_shallow_own) auto
  then show ?thesis using False by simp
qed

lemma keys_kept:
  assumes wf: "wfHeap h" and ob: "heapGet h a = Some ob"
    and kl: "isArray ob \<or> isFunc ob \<or> keyLooped ob"
  shows "\<exists>n c st' h' clone.
           baseClone n (Ref a) bm None Undefined Undefined None h = Some (Ref c, st', h')
         \<and> length h \<le> c \<and> heapGet h' c = Some clone
         \<and> (\<forall>k \<in> set (visitKeys ob (bm AND CLONE_FLAT_FLAG) (bm AND CLONE_SYMBOLS_FLAG)).
               opaque h (getProp ob k) \<longrightarrow> getProp clone k = getProp ob k)"
proof (cases "bm AND CLONE_DEEP_FLAG = 0 \<and> (isArray ob \<or> plainStructure ob Undefined)")
  case True
  then have sh: "bm AND CLONE_DEEP_FLAG = 0" and ap: "isArray ob \<or> plainStructure ob Undefined"
    by simp_all
  let ?ks = "visitKeys ob (bm AND CLONE_FLAT_FLAG) (bm AND CLONE_SYMBOLS_FLAG)"
  have "\<exists>copy. baseClone (Suc 0) (Ref a) bm None Undefined Undefined None h
                  = Some (Ref (length h), None, h @ [copy])
          \<and> (\<forall>k \<in> set ?ks. getProp copy k = getProp ob k)"
  proof (cases "isArray ob")
    case A: True
    from baseClone_shallow_copy [OF ob sh ap, of 0 Undefined None] A
    obtain copy where c: "baseClone (Suc 0) (Ref a) bm None Undefined Undefined None h
                  = Some (Ref (length h), None, h @ [copy])"
      and g: "\<forall>i. getProp copy (Num i) = getProp ob (Num i)" by blast
    have "\<forall>k \<in> set ?ks. getProp copy k = getProp ob k"
      using A g by (auto simp: visitKeys_def indices_def)
    with c show ?thesis by blast
  next
    case False
    then have ps: "plainStructure ob Undefined" using ap by simp
    let ?copy = "if bm AND CLONE_FLAT_FLAG \<noteq> 0
                  then copySymbolsIn ob (copyObject ob (keysIn ob) emptyObject)
                  else copySymbols ob (objectAssign
                         (if isFunc ob then emptyObject else initCloneObject ob) ob)"
    have "baseClone (Suc 0) (Ref a) bm None Undefined Undefined None h
            = Some (Ref (length h), None, h @ [?copy])"
      using ob sh initClone_shallow_plain [OF ps]
      by (simp add: baseClone_Suc isObject_def)
    moreover have "\<forall>k \<in> set ?ks. getProp ?copy k = getProp ob k"
      using getProp_shallow_visited [OF ps] by blast
    ultimately show ?thesis by blast
  qed
  then obtain copy where "baseClone (Suc 0) (Ref a) bm None Undefined Undefined None h
                  = Some (Ref (length h), None, h @ [copy])"
      and "\<forall>k \<in> set ?ks. getProp copy k = getProp ob k" by blast
  moreover have "heapGet (h @ [copy]) (length h) = Some copy" by (simp add: heapGet_def)
  ultimately show ?thesis by (meson order_refl)
next
  case False
  let ?ks = "visitKeys ob (bm AND CLONE_FLAT_FLAG) (bm AND CLONE_SYMBOLS_FLAG)"
  have aN: "a < length h" and ob_eq: "h ! a = ob" using ob by (simp_all add: heapGet_Some)
  have bk: "backingOK h ob" using wfHeap_nth(1) [OF wf aN] ob_eq by simp
  note tg = visited_tags(1-3) [OF kl]
  have "\<exists>res h1. initClone (Ref a) ob (bm AND CLONE_DEEP_FLAG) (bm AND CLONE_FLAT_FLAG)
                     Undefined h = Some (Populate res h1)"
  proof (cases "bm AND CLONE_DEEP_FLAG = 0")
    case D: False
    from initClone_deep_populates [OF kl D bk, of Undefined] show ?thesis by simp
  next
    case True
    then have n: "\<not> isArray ob" "\<not> plainStructure ob Undefined" using False by simp_all
    then have "keyLooped ob" "getTag ob \<noteq> objectTag" "getTag ob \<noteq> argsTag"
      using kl by (auto simp: plainStructure_def)
    from initClone_wrapper_populates [OF this bk] show ?thesis by simp
  qed
  then obtain res h1 where
    ic: "initClone (Ref a) ob (bm AND CLONE_DEEP_FLAG) (bm AND CLONE_FLAT_FLAG) Undefined h
           = Some (Populate res h1)" by blast
  from initClone_shell_same [OF ic] obtain c where c: "res = Ref c" "length h \<le> c"
    "c < length h1" "prefix h h1" "isArray (h1 ! c) = isArray ob" by blast
  let ?s1 = "stackSet [] (Ref a) (Ref c)"
  from baseClone_terminates [OF wf prefix_order.refl, of "Ref a" bm Undefined Undefined None] aN
  obtain n r st' h' where run: "baseClone n (Ref a) bm None Undefined Undefined None h
      = Some (r, st', h')"
    by (auto simp: refOK_def)
  from baseClone_key_loop [OF run ob ic tg] obtain m where n: "n = Suc m"
    and r: "r = Ref c"
    and loop: "forEach ?ks
             (visitProp (\<lambda>sv key. baseClone m sv bm None key (Ref a)) a (Ref c))
             (Some ?s1, h1) = Some (st', h')"
    using c(1) by auto
  have nonneg: "\<And>x. x \<in> set ?ks \<Longrightarrow> isArray ob \<Longrightarrow> \<forall>i. x = Num i \<longrightarrow> 0 \<le> i"
    by (auto simp: visitKeys_def dest: indices_nonneg)
  let ?I = "\<lambda>pre (s::stack) (hh::heap).
      \<forall>k \<in> set pre. opaque h (getProp ob k) \<longrightarrow> getProp (hh ! c) k = getProp ob k"
  have res: "?I ?ks (stackOf (fst (st', h'))) (snd (st', h'))
           \<and> extends (?s1, h) (stackOf (fst (st', h')), snd (st', h'))
           \<and> c < length (snd (st', h')) \<and> isArray (snd (st', h') ! c) = isArray ob
           \<and> fst (st', h') \<noteq> None"
  proof (rule keys_loop_inv [where I = ?I and ?st0.0 = "(?s1, h)" and ob = ob, OF loop])
    show "heapGet (snd (?s1, h)) a = Some ob" using ob by simp
    show "extends (?s1, h) (stackOf (fst (Some ?s1, h1)), snd (Some ?s1, h1))"
      using c(4) by (simp add: extends_prefix)
    show "length (snd (?s1, h)) \<le> c" using c(2) by simp
    show "c < length (snd (Some ?s1, h1))" using c(3) by simp
    show "isArray (snd (Some ?s1, h1) ! c) = isArray ob" using c(5) by simp
  next
    fix pre x post s hh r s' h2
    assume ks: "?ks = pre @ x # post"
      and e0: "extends (?s1, h) (s, hh)" and cl: "c < length hh"
      and arr: "isArray (hh ! c) = isArray ob"
      and I: "?I pre s hh"
      and rec: "baseClone m (getProp ob x) bm None x (Ref a) (Some s) hh = Some (r, Some s', h2)"
      and e1: "extends (s, hh) (s', h2)"
    have c1: "c < length h2"
      using cl extends_prefixD [OF e1] prefix_length_le by fastforce
    have pre0: "prefix h hh" using extends_prefixD [OF e0] by simp
    have "x \<in> set ?ks" unfolding ks by simp
    then have gs: "\<And>k. getProp (setProp (hh ! c) x r) k = (if k = x then r else getProp (hh ! c) k)"
      using nonneg arr by (intro getProp_setProp) simp
    have hit: "opaque h (getProp ob x) \<Longrightarrow> r = getProp ob x"
      using opaque_kept [OF rec _ pre0] by simp
    show "?I (pre @ [x]) s' (h2[c := setProp (hh ! c) x r])"
    proof (intro ballI impI)
      fix k assume kin: "k \<in> set (pre @ [x])" and op: "opaque h (getProp ob k)"
      show "getProp (h2[c := setProp (hh ! c) x r] ! c) k = getProp ob k"
      proof (cases "k = x")
        case True
        then show ?thesis using hit op c1 gs by simp
      next
        case False
        then have "k \<in> set pre" using kin by simp
        then show ?thesis using I op False c1 gs by simp
      qed
    qed
  qed simp_all
  have "heapGet h' c = Some (h' ! c)" using res by (simp add: heapGet_def)
  moreover have "\<forall>k \<in> set ?ks. opaque h (getProp ob k) \<longrightarrow> getProp (h' ! c) k = getProp ob k"
    using res by simp
  moreover note run [unfolded r] c(2)
  ultimately show ?thesis by blast
qed

lemma set_members_kept:
  assumes wf: "wfHeap h" and ob: "heapGet h a = Some ob" and kind: "kind ob = KSet vs"
  shows "\<exists>n c st' h' clone.
           baseClone n (Ref a) bm None Undefined Undefined None h = Some (Ref c, st', h')
         \<and> length h \<le> c \<and> heapGet h' c = Some clone
         \<and> (\<forall>v \<in> set vs. opaque h v \<longrightarrow> v \<in> set (setMembers clone))"
proof -
  let ?c = "length h"
  let ?s1 = "stackSet [] (Ref a) (Ref ?c)"
  have aN: "a < length h" using ob by (simp add: heapGet_Some)
  from baseClone_terminates [OF wf prefix_order.refl, of "Ref a" bm Undefined Undefined None] aN
  obtain n r st' h' where run: "baseClone n (Ref a) bm None Undefined Undefined None h
      = Some (r, st', h')"
    by (auto simp: refOK_def)
  from baseClone_set [OF run ob kind] obtain m where n: "n = Suc m"
    and r: "r = Ref ?c"
    and loop: "forEach vs
             (\<lambda>subValue. cloneInto (\<lambda>sv key. baseClone m sv bm None key (Ref a))
                               (\<lambda>hh r. setAdd hh (Ref ?c) r) subValue subValue)
             (Some ?s1, h @ [newCtor ob (KSet [])]) = Some (st', h')"
    by auto
  let ?I = "\<lambda>pre (s::stack) (hh::heap).
      \<forall>v \<in> set pre. opaque h v \<longrightarrow> v \<in> set (setMembers (hh ! ?c))"
  have res: "?I vs (stackOf (fst (st', h'))) (snd (st', h'))
           \<and> extends (?s1, h) (stackOf (fst (st', h')), snd (st', h'))
           \<and> ?c < length (snd (st', h')) \<and> (\<exists>ms. kind (snd (st', h') ! ?c) = KSet ms)
           \<and> fst (st', h') \<noteq> None"
  proof (rule set_loop_inv [where I = ?I and ?st0.0 = "(?s1, h)", OF loop])
    show "extends (?s1, h) (stackOf (fst (Some ?s1, h @ [newCtor ob (KSet [])])),
            snd (Some ?s1, h @ [newCtor ob (KSet [])]))"
      by (simp add: extends_prefix)
    show "\<exists>ms. kind (snd (Some ?s1, h @ [newCtor ob (KSet [])]) ! ?c) = KSet ms"
      by (simp add: newCtor_def)
  next
    fix pre sv post s hh r s' h1 ms
    assume e0: "extends (?s1, h) (s, hh)" and c: "?c < length hh"
      and ms: "kind (hh ! ?c) = KSet ms" and I: "?I pre s hh"
      and rec: "baseClone m sv bm None sv (Ref a) (Some s) hh = Some (r, Some s', h1)"
      and e1: "extends (s, hh) (s', h1)"
    let ?ms' = "if r \<in> set ms then ms else ms @ [r]"
    let ?h2 = "h1[?c := (hh ! ?c)\<lparr>kind := KSet ?ms'\<rparr>]"
    have pre1: "prefix hh h1" using extends_prefixD [OF e1] by simp
    have c1: "?c < length h1" using c pre1 prefix_length_le by fastforce
    have pre0: "prefix h hh" using extends_prefixD [OF e0] by simp
    have mem: "setMembers (?h2 ! ?c) = ?ms'" "setMembers (hh ! ?c) = ms"
      using c1 ms by (simp_all add: setMembers_def)
    have hit: "opaque h sv \<Longrightarrow> r = sv" using opaque_kept [OF rec _ pre0] by simp
    show "?I (pre @ [sv]) s' ?h2"
    proof (intro ballI impI)
      fix v assume vin: "v \<in> set (pre @ [sv])" and op: "opaque h v"
      show "v \<in> set (setMembers (?h2 ! ?c))"
      proof (cases "v = sv")
        case True
        then show ?thesis using hit op unfolding mem by simp
      next
        case False
        then have "v \<in> set pre" using vin by simp
        then have "v \<in> set ms" using I op mem(2) by auto
        then show ?thesis unfolding mem by simp
      qed
    qed
  qed simp_all
  have "heapGet h' ?c = Some (h' ! ?c)" using res by (simp add: heapGet_def)
  moreover have "\<forall>v \<in> set vs. opaque h v \<longrightarrow> v \<in> set (setMembers (h' ! ?c))"
    using res by simp
  moreover note run [unfolded r]
  ultimately show ?thesis by (meson order_refl)
qed


lemma map_entries_kept:
  assumes wf: "wfHeap h" and ob: "heapGet h a = Some ob"
    and kind: "kind ob = KMap es" and dk: "distinct (map fst es)"
  shows "\<exists>n c st' h' clone rs.
           baseClone n (Ref a) bm None Undefined Undefined None h = Some (Ref c, st', h')
         \<and> length h \<le> c \<and> heapGet h' c = Some clone
         \<and> length rs = length es \<and> mapEntries clone = zip (map fst es) rs
         \<and> (\<forall>i < length es. opaque h (snd (es ! i)) \<longrightarrow> rs ! i = snd (es ! i))"
proof -
  have aN: "a < length h" using ob by (simp add: heapGet_Some)
  from baseClone_terminates [OF wf prefix_order.refl, of "Ref a" bm Undefined Undefined None] aN
  obtain n r st' h' where run: "baseClone n (Ref a) bm None Undefined Undefined None h
      = Some (r, st', h')"
    by (auto simp: refOK_def)
  from map_entries_run [OF run wf ob kind dk] obtain rs where
    r: "r = Ref (length h)" and len: "length h < length h'"
    and rs: "length rs = length es" "mapEntries (h' ! length h) = zip (map fst es) rs"
    and vs: "\<forall>i < length es. opaque h (snd (es ! i)) \<longrightarrow> rs ! i = snd (es ! i)"
    by blast
  have "heapGet h' (length h) = Some (h' ! length h)" using len by (simp add: heapGet_def)
  moreover note run [unfolded r] rs vs
  ultimately show ?thesis by (meson order_refl)
qed

lemma opaque_tag:
  assumes "heapGet h e = Some eo" and "getTag eo = errorTag \<or> getTag eo = weakMapTag"
  shows "cloneableTags (getTag eo) = Some False" and "opaque h (Ref e)"
  using assms by (auto simp: opaque_def cloneableTags_def tagDefs)

text \<open>
  C5. Let \<open>e\<close> be an object whose tag is the error tag or the weak-collection tag,
  which the table marks \<open>false\<close>. A call on \<open>e\<close> with a parent object
  returns the reference it was given and changes nothing; a call without a parent
  returns a new empty object; at any depth and under any flags. So the clone of a parent
  holds \<open>e\<close> itself where the parent holds it, on every well-formed heap and under
  any flags: the clone of an array, of a callable or of an object that the loop over the
  keys populates has \<open>e\<close> under every key the loop visits at which the parent has
  \<open>e\<close>; the clone of a \<open>Map\<close> has \<open>e\<close> as the value of every entry
  whose value is \<open>e\<close>; the clone of a \<open>Set\<close> has the member \<open>e\<close> when
  the \<open>Set\<close> has.
\<close>

theorem opaque_fallback:
  assumes e: "heapGet h e = Some eo" and tag: "getTag eo = errorTag \<or> getTag eo = weakMapTag"
  shows "cloneableTags (getTag eo) = Some False
       \<and> baseClone (Suc n) (Ref e) bm None key object stack h =
           (if truthy object then Some (Ref e, stack, h)
            else Some (Ref (length h), stack, h @ [emptyObject]))
       \<and> (wfHeap h \<and> heapGet h a = Some ob \<longrightarrow>
            (isArray ob \<or> isFunc ob \<or> keyLooped ob \<longrightarrow>
               (\<exists>m c st' h' clone.
                   baseClone m (Ref a) bm None Undefined Undefined None h = Some (Ref c, st', h')
                 \<and> length h \<le> c \<and> heapGet h' c = Some clone
                 \<and> (\<forall>k \<in> set (visitKeys ob (bm AND CLONE_FLAT_FLAG) (bm AND CLONE_SYMBOLS_FLAG)).
                       getProp ob k = Ref e \<longrightarrow> getProp clone k = Ref e)))
          \<and> (\<forall>es. kind ob = KMap es \<and> distinct (map fst es) \<longrightarrow>
               (\<exists>m c st' h' clone rs.
                   baseClone m (Ref a) bm None Undefined Undefined None h = Some (Ref c, st', h')
                 \<and> length h \<le> c \<and> heapGet h' c = Some clone
                 \<and> length rs = length es \<and> mapEntries clone = zip (map fst es) rs
                 \<and> (\<forall>i < length es. snd (es ! i) = Ref e \<longrightarrow> rs ! i = Ref e)))
          \<and> (\<forall>vs. kind ob = KSet vs \<longrightarrow>
               (\<exists>m c st' h' clone.
                   baseClone m (Ref a) bm None Undefined Undefined None h = Some (Ref c, st', h')
                 \<and> length h \<le> c \<and> heapGet h' c = Some clone
                 \<and> (Ref e \<in> set vs \<longrightarrow> Ref e \<in> set (setMembers clone)))))"
proof (intro conjI impI allI)
  show "cloneableTags (getTag eo) = Some False" using opaque_tag(1) [OF e tag] .
next
  from tag have k: "kind eo = KError \<or> kind eo = KWeakMap"
    using getTag_error getTag_weakMap by blast
  show "baseClone (Suc n) (Ref e) bm None key object stack h =
           (if truthy object then Some (Ref e, stack, h)
            else Some (Ref (length h), stack, h @ [emptyObject]))"
    using e k by (simp add: baseClone_Suc initClone_opaque isObject_def)
next
  assume "wfHeap h \<and> heapGet h a = Some ob" and kl: "isArray ob \<or> isFunc ob \<or> keyLooped ob"
  then have wf: "wfHeap h" and ob: "heapGet h a = Some ob" by simp_all
  from keys_kept [OF wf ob kl, of bm] opaque_tag(2) [OF e tag]
  show "\<exists>m c st' h' clone.
          baseClone m (Ref a) bm None Undefined Undefined None h = Some (Ref c, st', h')
        \<and> length h \<le> c \<and> heapGet h' c = Some clone
        \<and> (\<forall>k \<in> set (visitKeys ob (bm AND CLONE_FLAT_FLAG) (bm AND CLONE_SYMBOLS_FLAG)).
              getProp ob k = Ref e \<longrightarrow> getProp clone k = Ref e)"
    by (metis (no_types, lifting))
next
  fix es
  assume "wfHeap h \<and> heapGet h a = Some ob" and "kind ob = KMap es \<and> distinct (map fst es)"
  then have wf: "wfHeap h" and ob: "heapGet h a = Some ob"
    and kind: "kind ob = KMap es" and dk: "distinct (map fst es)" by simp_all
  from map_entries_kept [OF wf ob kind dk, of bm] opaque_tag(2) [OF e tag]
  show "\<exists>m c st' h' clone rs.
          baseClone m (Ref a) bm None Undefined Undefined None h = Some (Ref c, st', h')
        \<and> length h \<le> c \<and> heapGet h' c = Some clone
        \<and> length rs = length es \<and> mapEntries clone = zip (map fst es) rs
        \<and> (\<forall>i < length es. snd (es ! i) = Ref e \<longrightarrow> rs ! i = Ref e)"
    by (metis (no_types, lifting))
next
  fix vs
  assume "wfHeap h \<and> heapGet h a = Some ob" and kind: "kind ob = KSet vs"
  then have wf: "wfHeap h" and ob: "heapGet h a = Some ob" by simp_all
  from set_members_kept [OF wf ob kind, of bm] opaque_tag(2) [OF e tag]
  show "\<exists>m c st' h' clone.
          baseClone m (Ref a) bm None Undefined Undefined None h = Some (Ref c, st', h')
        \<and> length h \<le> c \<and> heapGet h' c = Some clone
        \<and> (Ref e \<in> set vs \<longrightarrow> Ref e \<in> set (setMembers clone))"
    by (metis (no_types, lifting))
qed

theorem opaque_fallback_witness:
  "baseClone (Suc 0) (Ref 1) CLONE_DEEP_FLAG None (Str ''err'') (Ref 0) (Some [(Ref 0, Ref 2)])
      [plainObject [(Str ''err'', Ref 1)], objectOf KError []]
     = Some (Ref 1, Some [(Ref 0, Ref 2)], [plainObject [(Str ''err'', Ref 1)], objectOf KError []])
   \<and> baseClone (Suc 0) (Ref 1) CLONE_DEEP_FLAG None Undefined Undefined None
      [plainObject [(Str ''err'', Ref 1)], objectOf KError []]
     = Some (Ref 2, None, [plainObject [(Str ''err'', Ref 1)], objectOf KError [], emptyObject])
   \<and> (\<exists>m c st' h' clone.
         baseClone m (Ref 0) CLONE_DEEP_FLAG None Undefined Undefined None
           [plainObject [(Str ''err'', Ref 1)], objectOf KError []] = Some (Ref c, st', h')
       \<and> 2 \<le> c \<and> heapGet h' c = Some clone \<and> getProp clone (Str ''err'') = Ref 1)"
proof -
  let ?a = "plainObject [(Str ''err'', Ref 1)]"
  let ?e = "objectOf KError []"
  let ?h = "[?a, ?e]"
  have 1: "heapGet ?h 1 = Some ?e" by (simp add: heapGet_def)
  have 2: "getTag ?e = errorTag \<or> getTag ?e = weakMapTag" by (simp add: getTag_def objectOf_def)
  have wf: "wfHeap ?h"
    by (simp add: wfHeap_def backingOK_def childVals_def refOK_def plainObject_def objectOf_def
        elems_def mapEntries_def setMembers_def)
  have ob: "heapGet ?h 0 = Some ?a" by (simp add: heapGet_def)
  have kl: "isArray ?a \<or> isFunc ?a \<or> keyLooped ?a"
    by (simp add: keyLooped_def isArray_def isBuffer_def isFunc_def isTypedArray_def
        getTag_def cloneableTags_def tagDefs plainObject_def)
  have k: "Str ''err'' \<in> set (visitKeys ?a (CLONE_DEEP_FLAG AND CLONE_FLAT_FLAG)
                                   (CLONE_DEEP_FLAG AND CLONE_SYMBOLS_FLAG))"
    "getProp ?a (Str ''err'') = Ref 1"
    by (simp_all add: visitKeys_def keys_def isStrKey_def isArray_def flagDefs plainObject_def
        getProp_def)
  have t: "truthy (Ref 0)" "\<not> truthy Undefined" by simp_all
  from opaque_fallback [OF 1 2, of 0 CLONE_DEEP_FLAG "Str ''err''" "Ref 0" "Some [(Ref 0, Ref 2)]"
      0 ?a] t(1)
  have A: "baseClone (Suc 0) (Ref 1) CLONE_DEEP_FLAG None (Str ''err'') (Ref 0)
             (Some [(Ref 0, Ref 2)]) ?h = Some (Ref 1, Some [(Ref 0, Ref 2)], ?h)"
    and P: "wfHeap ?h \<and> heapGet ?h 0 = Some ?a \<longrightarrow>
            (isArray ?a \<or> isFunc ?a \<or> keyLooped ?a \<longrightarrow>
               (\<exists>m c st' h' clone.
                   baseClone m (Ref 0) CLONE_DEEP_FLAG None Undefined Undefined None ?h
                     = Some (Ref c, st', h')
                 \<and> length ?h \<le> c \<and> heapGet h' c = Some clone
                 \<and> (\<forall>k \<in> set (visitKeys ?a (CLONE_DEEP_FLAG AND CLONE_FLAT_FLAG)
                                     (CLONE_DEEP_FLAG AND CLONE_SYMBOLS_FLAG)).
                       getProp ?a k = Ref 1 \<longrightarrow> getProp clone k = Ref 1)))"
    by simp_all
  from opaque_fallback [OF 1 2, of 0 CLONE_DEEP_FLAG Undefined Undefined None 0 ?a] t(2)
  have B: "baseClone (Suc 0) (Ref 1) CLONE_DEEP_FLAG None Undefined Undefined None ?h
             = Some (Ref 2, None, ?h @ [emptyObject])"
    by simp
  from P wf ob kl obtain m c st' h' clone where
    run: "baseClone m (Ref 0) CLONE_DEEP_FLAG None Undefined Undefined None ?h
            = Some (Ref c, st', h')"
    and c: "length ?h \<le> c" "heapGet h' c = Some clone"
    and g: "\<forall>k \<in> set (visitKeys ?a (CLONE_DEEP_FLAG AND CLONE_FLAT_FLAG)
                                     (CLONE_DEEP_FLAG AND CLONE_SYMBOLS_FLAG)).
                       getProp ?a k = Ref 1 \<longrightarrow> getProp clone k = Ref 1"
    by blast
  from g k have "getProp clone (Str ''err'') = Ref 1" by blast
  moreover have "2 \<le> c" using c(1) by simp
  ultimately have "\<exists>m c st' h' clone.
         baseClone m (Ref 0) CLONE_DEEP_FLAG None Undefined Undefined None ?h
           = Some (Ref c, st', h')
       \<and> 2 \<le> c \<and> heapGet h' c = Some clone \<and> getProp clone (Str ''err'') = Ref 1"
    using run c(2) by blast
  moreover have "?h @ [emptyObject] = [?a, ?e, emptyObject]" by simp
  ultimately show ?thesis using A B by (intro conjI) simp_all
qed


end
